theory Spec2Isabelle
  imports Main "HOL-Library.Sublist"
begin

section \<open>Python values shared by the services\<close>

text \<open>
  A \<^verbatim>\<open>datetime\<close> is modelled as the integer number of microseconds (the resolution of
  Python's datetime) since \<^verbatim>\<open>datetime.min\<close>. The test
  \<^verbatim>\<open>(now - last_use).total_seconds() < cooldown\<close> compares a correctly rounded quotient by
  \<open>10^6\<close> with one of the integers 0, 60, 300 and 3600, so it is the integer comparison
  \<open>now - last_use < cooldown * 10^6\<close>.
\<close>

type_synonym datetime = int

definition datetime_min :: datetime where
  "datetime_min = 0"

definition seconds :: "int \<Rightarrow> int" where
  "seconds n = n * 1000000"

datatype pyerror = KeyError | IndexError | ValueError | UnboundLocalError

section \<open>enhanced\_api\_rotation\_manager.py\<close>

text \<open>
  The five dictionaries of \<^verbatim>\<open>EnhancedAPIRotationManager\<close>, as the class has them. The
  rotation cursor only ever holds 0 or a remainder modulo the pool size, hence a natural
  number.
\<close>

record manager =
  api_configs :: "string \<rightharpoonup> string list"
  current_indices :: "string \<rightharpoonup> nat"
  error_counts :: "string \<rightharpoonup> (string \<rightharpoonup> int)"
  last_used :: "string \<rightharpoonup> (string \<rightharpoonup> datetime)"
  cooldown_periods :: "string \<rightharpoonup> (string \<rightharpoonup> int)"

text \<open>
  \<^verbatim>\<open>__init__\<close>: \<open>configs\<close> is what \<^verbatim>\<open>_load_api_configs\<close> read from the environment and
  \<open>boot service api_key\<close> is the clock reading taken when that key's entry is created.
\<close>

definition init_manager :: "(string \<Rightarrow> string \<Rightarrow> datetime) \<Rightarrow> (string \<rightharpoonup> string list) \<Rightarrow> manager" where
  "init_manager boot configs =
     \<lparr> api_configs = configs,
       current_indices = (\<lambda>service. case configs service of None \<Rightarrow> None | Some ks \<Rightarrow> Some 0),
       error_counts = (\<lambda>service. case configs service of None \<Rightarrow> None
          | Some ks \<Rightarrow> Some (\<lambda>api_key. if api_key \<in> set ks then Some 0 else None)),
       last_used = (\<lambda>service. case configs service of None \<Rightarrow> None
          | Some ks \<Rightarrow> Some (\<lambda>api_key. if api_key \<in> set ks
                                then Some (boot service api_key - seconds 3600) else None)),
       cooldown_periods = (\<lambda>service. case configs service of None \<Rightarrow> None
          | Some ks \<Rightarrow> Some (\<lambda>api_key. if api_key \<in> set ks then Some 0 else None)) \<rparr>"

text \<open>\<^verbatim>\<open>dict.get(key, default)\<close>.\<close>

definition get_or :: "('k \<rightharpoonup> 'v) \<Rightarrow> 'k \<Rightarrow> 'v \<Rightarrow> 'v" where
  "get_or d k dflt = (case d k of None \<Rightarrow> dflt | Some v \<Rightarrow> v)"

text \<open>
  \<^verbatim>\<open>_is_api_available\<close> (the leading underscore is dropped, an Isabelle name cannot start
  with one). \<open>now\<close> is the value of its \<^verbatim>\<open>datetime.now()\<close>. A subscript on a dictionary
  that lacks the service raises KeyError.
\<close>

definition is_api_available :: "datetime \<Rightarrow> string \<Rightarrow> string \<Rightarrow> manager \<Rightarrow> pyerror + bool" where
  "is_api_available now service api_key m =
     (case cooldown_periods m service of
        None \<Rightarrow> Inl KeyError
      | Some cp \<Rightarrow>
          (case last_used m service of
             None \<Rightarrow> Inl KeyError
           | Some lu \<Rightarrow>
               if now - get_or lu api_key datetime_min < seconds (get_or cp api_key 0)
               then Inr False
               else (case error_counts m service of
                       None \<Rightarrow> Inl KeyError
                     | Some ec \<Rightarrow> if get_or ec api_key 0 > 5 then Inr False else Inr True)))"

text \<open>
  \<^verbatim>\<open>_update_usage\<close>. A function that mutates the manager returns, on an exception, the
  error together with the manager as it is at the raise.
\<close>

definition update_usage :: "datetime \<Rightarrow> string \<Rightarrow> string \<Rightarrow> manager \<Rightarrow> (pyerror \<times> manager) + manager" where
  "update_usage now service api_key m =
     (case last_used m service of
        None \<Rightarrow> Inl (KeyError, m)
      | Some lu \<Rightarrow>
          (let m1 = m\<lparr>last_used := (last_used m)(service \<mapsto> lu(api_key \<mapsto> now))\<rparr>
           in case error_counts m1 service of
                None \<Rightarrow> Inl (KeyError, m1)
              | Some ec \<Rightarrow>
                  (case ec api_key of
                     None \<Rightarrow> Inr m1
                   | Some n \<Rightarrow> Inr (m1\<lparr>error_counts := (error_counts m1)(service \<mapsto> ec(api_key \<mapsto> 0))\<rparr>))))"

text \<open>
  The \<^verbatim>\<open>for _ in range(len(available_apis))\<close> loop of \<^verbatim>\<open>get_next_api\<close>: \<open>n\<close> iterations
  are left, \<open>clock\<close> gives the successive readings of \<^verbatim>\<open>datetime.now()\<close> within the call
  and \<open>tick\<close> counts the readings taken so far. The result \<open>Some api\<close> is the
  \<^verbatim>\<open>return current_api\<close> inside the loop, \<open>None\<close> is the loop running out.
\<close>

fun scan :: "(nat \<Rightarrow> datetime) \<Rightarrow> string \<Rightarrow> string list \<Rightarrow> nat \<Rightarrow> nat \<Rightarrow> manager
    \<Rightarrow> (pyerror \<times> manager) + (string option \<times> manager)" where
  "scan clock service available_apis 0 tick m = Inr (None, m)"
| "scan clock service available_apis (Suc n) tick m =
     (case current_indices m service of
        None \<Rightarrow> Inl (KeyError, m)
      | Some i \<Rightarrow>
          if i \<ge> length available_apis then Inl (IndexError, m)
          else (let current_api = available_apis ! i
                in case is_api_available (clock tick) service current_api m of
                     Inl e \<Rightarrow> Inl (e, m)
                   | Inr True \<Rightarrow>
                       (case update_usage (clock (Suc tick)) service current_api m of
                          Inl x \<Rightarrow> Inl x
                        | Inr m' \<Rightarrow> Inr (Some current_api, m'))
                   | Inr False \<Rightarrow>
                       scan clock service available_apis n (Suc tick)
                         (m\<lparr>current_indices :=
                              (current_indices m)(service \<mapsto> (i + 1) mod length available_apis)\<rparr>)))"

text \<open>
  Python's \<^verbatim>\<open>min(xs, key=f)\<close> on a non-empty list: the first element whose key is
  minimal. \<open>best\<close> is the minimum found so far.
\<close>

fun min_by :: "('a \<Rightarrow> 'b::linorder) \<Rightarrow> 'a \<Rightarrow> 'a list \<Rightarrow> 'a" where
  "min_by f best [] = best"
| "min_by f best (x # xs) = min_by f (if f x < f best then x else best) xs"

definition py_min :: "('a \<Rightarrow> 'b::linorder) \<Rightarrow> 'a list \<Rightarrow> pyerror + 'a" where
  "py_min f xs = (case xs of [] \<Rightarrow> Inl ValueError | x # rest \<Rightarrow> Inr (min_by f x rest))"

definition get_next_api :: "(nat \<Rightarrow> datetime) \<Rightarrow> string \<Rightarrow> manager
    \<Rightarrow> (pyerror \<times> manager) + (string option \<times> manager)" where
  "get_next_api clock service m =
     (case api_configs m service of
        None \<Rightarrow> Inr (None, m)
      | Some available_apis \<Rightarrow>
          if available_apis = [] then Inr (None, m)
          else (case scan clock service available_apis (length available_apis) 0 m of
                  Inl x \<Rightarrow> Inl x
                | Inr (Some api, m') \<Rightarrow> Inr (Some api, m')
                | Inr (None, m') \<Rightarrow>
                    (case last_used m' service of
                       None \<Rightarrow> Inl (KeyError, m')
                     | Some lu \<Rightarrow>
                         (case py_min (\<lambda>api. get_or lu api datetime_min) available_apis of
                            Inl e \<Rightarrow> Inl (e, m')
                          | Inr best_api \<Rightarrow>
                              (case update_usage (clock (length available_apis)) service best_api m' of
                                 Inl x \<Rightarrow> Inl x
                               | Inr m'' \<Rightarrow> Inr (Some best_api, m''))))))"

text \<open>\<^verbatim>\<open>report_error\<close>. It reads no clock.\<close>

definition report_error :: "string \<Rightarrow> string \<Rightarrow> string \<Rightarrow> manager \<Rightarrow> (pyerror \<times> manager) + manager" where
  "report_error service api_key error_type m =
     (case error_counts m service of
        None \<Rightarrow> Inr m
      | Some ec \<Rightarrow>
          (case ec api_key of
             None \<Rightarrow> Inr m
           | Some n \<Rightarrow>
               (let m1 = m\<lparr>error_counts := (error_counts m)(service \<mapsto> ec(api_key \<mapsto> n + 1))\<rparr>
                in case cooldown_periods m1 service of
                     None \<Rightarrow> Inl (KeyError, m1)
                   | Some cp \<Rightarrow>
                       Inr (m1\<lparr>cooldown_periods := (cooldown_periods m1)(service \<mapsto> cp(api_key \<mapsto>
                              (if error_type = ''rate_limit'' then 300
                               else if error_type = ''quota_exceeded'' then 3600
                               else 60)))\<rparr>))))"

subsection \<open>Reading the state of one credential\<close>

definition error_count_of :: "manager \<Rightarrow> string \<Rightarrow> string \<Rightarrow> int option" where
  "error_count_of m service api_key =
     (case error_counts m service of None \<Rightarrow> None | Some ec \<Rightarrow> ec api_key)"

definition last_used_of :: "manager \<Rightarrow> string \<Rightarrow> string \<Rightarrow> datetime option" where
  "last_used_of m service api_key =
     (case last_used m service of None \<Rightarrow> None | Some lu \<Rightarrow> lu api_key)"

definition cooldown_of :: "manager \<Rightarrow> string \<Rightarrow> string \<Rightarrow> int option" where
  "cooldown_of m service api_key =
     (case cooldown_periods m service of None \<Rightarrow> None | Some cp \<Rightarrow> cp api_key)"

text \<open>
  What \<^verbatim>\<open>__init__\<close> establishes for a configured service and every method keeps: the pool
  is not empty, the cursor is inside it, and each pool member has its three entries.
\<close>

definition wf_service :: "manager \<Rightarrow> string \<Rightarrow> string list \<Rightarrow> bool" where
  "wf_service m service ks \<longleftrightarrow>
     api_configs m service = Some ks \<and> ks \<noteq> [] \<and>
     (case current_indices m service of None \<Rightarrow> False | Some i \<Rightarrow> i < length ks) \<and>
     list_all (\<lambda>k. error_count_of m service k \<noteq> None \<and> last_used_of m service k \<noteq> None
                   \<and> cooldown_of m service k \<noteq> None) ks"

subsection \<open>Derived notions used in the statements and proofs\<close>

text \<open>The availability check passes (it returns \<^verbatim>\<open>True\<close> and raises nothing).\<close>

definition available :: "datetime \<Rightarrow> manager \<Rightarrow> string \<Rightarrow> string \<Rightarrow> bool" where
  "available now m service api_key \<longleftrightarrow> is_api_available now service api_key m = Inr True"

text \<open>
  The key function of the fallback, \<^verbatim>\<open>self.last_used[service].get(api, datetime.min)\<close>, read
  through \<open>last_used_of\<close>.
\<close>

definition last_use :: "manager \<Rightarrow> string \<Rightarrow> string \<Rightarrow> datetime" where
  "last_use m service api_key =
     (case last_used_of m service api_key of None \<Rightarrow> datetime_min | Some t \<Rightarrow> t)"

text \<open>The manager with the cursor of a service moved to \<open>j\<close>.\<close>

definition set_cursor :: "manager \<Rightarrow> string \<Rightarrow> nat \<Rightarrow> manager" where
  "set_cursor m service j = m\<lparr>current_indices := (current_indices m)(service \<mapsto> j)\<rparr>"

text \<open>Attaches the returned value to the state a mutating call leaves.\<close>

definition returning :: "'r \<Rightarrow> 'e + 's \<Rightarrow> 'e + ('r \<times> 's)" where
  "returning r x = (case x of Inl e \<Rightarrow> Inl e | Inr s \<Rightarrow> Inr (r, s))"

text \<open>
  \<open>selected m p k now j m'\<close>: \<open>m'\<close> is \<open>m\<close> after a selection of credential \<open>k\<close> of
  service \<open>p\<close> that read the clock value \<open>now\<close> and left the cursor at \<open>j\<close>.
\<close>

definition selected :: "manager \<Rightarrow> string \<Rightarrow> string \<Rightarrow> datetime \<Rightarrow> nat \<Rightarrow> manager \<Rightarrow> bool" where
  "selected m p k now j m' \<longleftrightarrow>
     api_configs m' = api_configs m \<and> cooldown_periods m' = cooldown_periods m \<and>
     current_indices m' = (current_indices m)(p \<mapsto> j) \<and>
     last_used_of m' p k = Some now \<and> error_count_of m' p k = Some 0 \<and>
     (\<forall>q k'. (q, k') \<noteq> (p, k) \<longrightarrow> error_count_of m' q k' = error_count_of m q k') \<and>
     (\<forall>q k'. (q, k') \<noteq> (p, k) \<longrightarrow> last_used_of m' q k' = last_used_of m q k') \<and>
     (\<forall>q. q \<noteq> p \<longrightarrow> error_counts m' q = error_counts m q \<and> last_used m' q = last_used m q)"

text \<open>
  A service as \<^verbatim>\<open>get_next_api\<close> can meet it: not configured, configured with an empty
  pool, or well formed.
\<close>

definition pool_ok :: "manager \<Rightarrow> string \<Rightarrow> bool" where
  "pool_ok m service \<longleftrightarrow>
     (case api_configs m service of None \<Rightarrow> True | Some ks \<Rightarrow> ks = [] \<or> wf_service m service ks)"

text \<open>
  \<open>n\<close> consecutive calls of \<^verbatim>\<open>get_next_api\<close> for one service, as a caller makes them:
  \<open>clocks c\<close> is the clock of call number \<open>c\<close>, the results are collected in call order.
\<close>

fun consecutive_selects :: "(nat \<Rightarrow> nat \<Rightarrow> datetime) \<Rightarrow> string \<Rightarrow> nat \<Rightarrow> nat \<Rightarrow> manager
    \<Rightarrow> (pyerror \<times> manager) + (string option list \<times> manager)" where
  "consecutive_selects clocks service 0 c m = Inr ([], m)"
| "consecutive_selects clocks service (Suc n) c m =
     (case get_next_api (clocks c) service m of
        Inl x \<Rightarrow> Inl x
      | Inr (r, m') \<Rightarrow>
          (case consecutive_selects clocks service n (Suc c) m' of
             Inl x \<Rightarrow> Inl x
           | Inr (rs, m'') \<Rightarrow> Inr (r # rs, m'')))"

text \<open>Projections of a result: the manager it leaves and the value or error it yields.\<close>

definition manager_of :: "(pyerror \<times> manager) + ('a \<times> manager) \<Rightarrow> manager" where
  "manager_of r = (case r of Inl (e, m) \<Rightarrow> m | Inr (x, m) \<Rightarrow> m)"

definition value_of :: "(pyerror \<times> manager) + ('a \<times> manager) \<Rightarrow> pyerror + 'a" where
  "value_of r = (case r of Inl (e, m) \<Rightarrow> Inl e | Inr (x, m) \<Rightarrow> Inr x)"

definition reported :: "(pyerror \<times> manager) + manager \<Rightarrow> manager" where
  "reported r = (case r of Inl (e, m) \<Rightarrow> m | Inr m \<Rightarrow> m)"

section \<open>real\_search\_orchestrator.py\<close>

text \<open>
  What the body of a \<^verbatim>\<open>try\<close> block that calls a provider comes to: it returns a value or
  raises an exception whose text \<^verbatim>\<open>str(e)\<close> is the string.
\<close>

datatype 'a outcome = Returns 'a | Raises string

text \<open>
  The dictionary a \<^verbatim>\<open>_search_with_*\<close> method returns on success. \<open>'r\<close> is the type of a
  processed result; only Tavily's dictionary has an \<^verbatim>\<open>answer\<close>.
\<close>

record 'r provider_result =
  results :: "'r list"
  total_results :: nat
  api_used :: string
  answer :: "string option"

text \<open>
  The collaborators of one \<^verbatim>\<open>execute_comprehensive_search\<close> call: the clock readings taken
  while a key of each service is selected, the three provider calls (given the key and the
  query) with the list of processed results they lead to, whether \<^verbatim>\<open>exa_py\<close> can be
  imported, what \<^verbatim>\<open>websailor.execute_massive_search\<close> returned (it catches every
  \<^verbatim>\<open>Exception\<close> itself), and the clock reading of the report.
\<close>

record ('r, 'w) world =
  now_for :: "string \<Rightarrow> nat \<Rightarrow> datetime"
  exa_installed :: bool
  exa_search_and_contents :: "string \<Rightarrow> string \<Rightarrow> 'r list outcome"
  tavily_post :: "string \<Rightarrow> string \<Rightarrow> ('r list \<times> string) outcome"
  serpapi_get :: "string \<Rightarrow> string \<Rightarrow> 'r list outcome"
  websailor_result :: 'w
  report_time :: datetime

text \<open>
  \<^verbatim>\<open>str.lower()\<close> on a text whose code points are below 256, the range of \<open>char\<close>: the
  upper-case letters there are A to Z and, in Latin-1, 192 to 222 without 215; each
  lies 32 below its lower-case letter.
\<close>

definition lower_char :: "char \<Rightarrow> char" where
  "lower_char ch =
     (let n = (of_char ch :: nat)
      in if (65 \<le> n \<and> n \<le> 90) \<or> (192 \<le> n \<and> n \<le> 222 \<and> n \<noteq> 215) then char_of (n + 32) else ch)"

definition py_lower :: "string \<Rightarrow> string" where
  "py_lower s = map lower_char s"

text \<open>\<^verbatim>\<open>"rate_limit" if "rate" in str(e).lower() else "generic"\<close>.\<close>

definition classify :: "string \<Rightarrow> string" where
  "classify e = (if sublist ''rate'' (py_lower e) then ''rate_limit'' else ''generic'')"

text \<open>
  The common shape of \<^verbatim>\<open>_search_with_exa\<close>, \<^verbatim>\<open>_search_with_tavily\<close> and
  \<^verbatim>\<open>_search_with_serpapi\<close> (the two \<^verbatim>\<open>except\<close> clauses of the latter two have the same
  body). \<open>body api_key\<close> is the rest of the \<^verbatim>\<open>try\<close> block once a key is there. When
  \<^verbatim>\<open>get_next_api\<close> itself raises, the handler reads the key variable before it was ever
  assigned, which raises UnboundLocalError out of the method; an exception of
  \<^verbatim>\<open>report_error\<close> in the handler leaves the method as well.
\<close>

definition search_with :: "string \<Rightarrow> (nat \<Rightarrow> datetime) \<Rightarrow> (string \<Rightarrow> 'r provider_result option outcome)
    \<Rightarrow> manager \<Rightarrow> (pyerror \<times> manager) + ('r provider_result option \<times> manager)" where
  "search_with service clock body m =
     (case get_next_api clock service m of
        Inl (e, m1) \<Rightarrow> Inl (UnboundLocalError, m1)
      | Inr (key, m1) \<Rightarrow>
          (case key of
             None \<Rightarrow> Inr (None, m1)
           | Some api_key \<Rightarrow>
               if api_key = [] then Inr (None, m1)
               else (case body api_key of
                       Returns r \<Rightarrow> Inr (r, m1)
                     | Raises e \<Rightarrow>
                         (case report_error service api_key (classify e) m1 of
                            Inl x \<Rightarrow> Inl x
                          | Inr m2 \<Rightarrow> Inr (None, m2)))))"

text \<open>\<^verbatim>\<open>api_key[:10] + "..."\<close>.\<close>

definition truncated :: "string \<Rightarrow> string" where
  "truncated api_key = take 10 api_key @ ''...''"

text \<open>The \<^verbatim>\<open>try\<close> block of \<^verbatim>\<open>_search_with_exa\<close> after the key: a failed import returns \<^verbatim>\<open>None\<close>.\<close>

definition exa_body :: "('r, 'w) world \<Rightarrow> string \<Rightarrow> string \<Rightarrow> 'r provider_result option outcome" where
  "exa_body w query api_key =
     (if \<not> exa_installed w then Returns None
      else (case exa_search_and_contents w api_key query of
              Raises e \<Rightarrow> Raises e
            | Returns processed_results \<Rightarrow>
                Returns (Some \<lparr> results = processed_results,
                                total_results = length processed_results,
                                api_used = truncated api_key, answer = None \<rparr>)))"

definition tavily_body :: "('r, 'w) world \<Rightarrow> string \<Rightarrow> string \<Rightarrow> 'r provider_result option outcome" where
  "tavily_body w query api_key =
     (case tavily_post w api_key query of
        Raises e \<Rightarrow> Raises e
      | Returns (processed_results, the_answer) \<Rightarrow>
          Returns (Some \<lparr> results = processed_results,
                          total_results = length processed_results,
                          api_used = truncated api_key, answer = Some the_answer \<rparr>))"

definition serpapi_body :: "('r, 'w) world \<Rightarrow> string \<Rightarrow> string \<Rightarrow> 'r provider_result option outcome" where
  "serpapi_body w query api_key =
     (case serpapi_get w api_key query of
        Raises e \<Rightarrow> Raises e
      | Returns processed_results \<Rightarrow>
          Returns (Some \<lparr> results = processed_results,
                          total_results = length processed_results,
                          api_used = truncated api_key, answer = None \<rparr>))"

definition search_with_exa :: "('r, 'w) world \<Rightarrow> string \<Rightarrow> manager
    \<Rightarrow> (pyerror \<times> manager) + ('r provider_result option \<times> manager)" where
  "search_with_exa w query m = search_with ''exa'' (now_for w ''exa'') (exa_body w query) m"

definition search_with_tavily :: "('r, 'w) world \<Rightarrow> string \<Rightarrow> manager
    \<Rightarrow> (pyerror \<times> manager) + ('r provider_result option \<times> manager)" where
  "search_with_tavily w query m = search_with ''tavily'' (now_for w ''tavily'') (tavily_body w query) m"

definition search_with_serpapi :: "('r, 'w) world \<Rightarrow> string \<Rightarrow> manager
    \<Rightarrow> (pyerror \<times> manager) + ('r provider_result option \<times> manager)" where
  "search_with_serpapi w query m = search_with ''serpapi'' (now_for w ''serpapi'') (serpapi_body w query) m"

text \<open>
  \<^verbatim>\<open>if x_result and x_result.get('results'): results[name] = x_result\<close>: a returned
  dictionary is never empty, so the test is on its list of results.
\<close>

definition attach :: "string \<Rightarrow> 'r provider_result option \<Rightarrow> (string \<rightharpoonup> 'r provider_result)
    \<Rightarrow> (string \<rightharpoonup> 'r provider_result)" where
  "attach name x_result acc =
     (case x_result of
        None \<Rightarrow> acc
      | Some d \<Rightarrow> if results d = [] then acc else acc(name \<mapsto> d))"

definition search_with_multiple_apis :: "('r, 'w) world \<Rightarrow> string \<Rightarrow> manager
    \<Rightarrow> (pyerror \<times> manager) + ((string \<rightharpoonup> 'r provider_result) \<times> manager)" where
  "search_with_multiple_apis w query m =
     (case search_with_exa w query m of
        Inl x \<Rightarrow> Inl x
      | Inr (exa_result, m1) \<Rightarrow>
          (case search_with_tavily w query m1 of
             Inl x \<Rightarrow> Inl x
           | Inr (tavily_result, m2) \<Rightarrow>
               (case search_with_serpapi w query m2 of
                  Inl x \<Rightarrow> Inl x
                | Inr (serpapi_result, m3) \<Rightarrow>
                    Inr (attach ''serpapi'' serpapi_result
                           (attach ''tavily'' tavily_result
                              (attach ''exa'' exa_result Map.empty)), m3))))"

text \<open>
  The two dictionaries \<^verbatim>\<open>execute_comprehensive_search\<close> can return: the consolidated result
  with \<^verbatim>\<open>'success': True\<close>, or, from its \<^verbatim>\<open>except Exception\<close>, the one with
  \<^verbatim>\<open>'success': False\<close> and the error.
\<close>

datatype ('r, 'w) search_report =
    Consolidated string string datetime 'w "string \<rightharpoonup> 'r provider_result"
  | Failed pyerror datetime

definition success :: "('r, 'w) search_report \<Rightarrow> bool" where
  "success rep = (case rep of Consolidated q pn ts ws api \<Rightarrow> True | Failed e ts \<Rightarrow> False)"

definition api_search_results :: "('r, 'w) search_report \<Rightarrow> (string \<rightharpoonup> 'r provider_result)" where
  "api_search_results rep = (case rep of Consolidated q pn ts ws api \<Rightarrow> api | Failed e ts \<Rightarrow> Map.empty)"

definition execute_comprehensive_search :: "('r, 'w) world \<Rightarrow> string \<Rightarrow> string \<Rightarrow> manager
    \<Rightarrow> ('r, 'w) search_report \<times> manager" where
  "execute_comprehensive_search w query product_name m =
     (case search_with_multiple_apis w query m of
        Inl (e, m') \<Rightarrow> (Failed e (report_time w), m')
      | Inr (api_results, m') \<Rightarrow>
          (Consolidated query product_name (report_time w) (websailor_result w) api_results, m'))"

subsection \<open>Derived notions for the statements on the orchestrator\<close>

text \<open>The three services of the fan-out and, by service name, the rest of its \<^verbatim>\<open>try\<close> block.\<close>

definition providers :: "string list" where
  "providers = [''exa'', ''tavily'', ''serpapi'']"

definition body_of :: "('r, 'w) world \<Rightarrow> string \<Rightarrow> string \<Rightarrow> string \<Rightarrow> 'r provider_result option outcome" where
  "body_of w query service =
     (if service = ''exa'' then exa_body w query
      else if service = ''tavily'' then tavily_body w query
      else serpapi_body w query)"

text \<open>The key \<^verbatim>\<open>get_next_api\<close> hands out for a service, from the manager as the call finds it.\<close>

definition key_for :: "('r, 'w) world \<Rightarrow> string \<Rightarrow> manager \<Rightarrow> pyerror + string option" where
  "key_for w service m = value_of (get_next_api (now_for w service) service m)"

text \<open>Two managers that hold the same entries for a service.\<close>

definition agree_on :: "string \<Rightarrow> manager \<Rightarrow> manager \<Rightarrow> bool" where
  "agree_on service m m2 \<longleftrightarrow>
     api_configs m service = api_configs m2 service \<and>
     current_indices m service = current_indices m2 service \<and>
     error_counts m service = error_counts m2 service \<and>
     last_used m service = last_used m2 service \<and>
     cooldown_periods m service = cooldown_periods m2 service"

text \<open>Agreement of two results: the same value or error, and managers that agree.\<close>

definition res_agree :: "string \<Rightarrow> (pyerror \<times> manager) + ('a \<times> manager) \<Rightarrow> (pyerror \<times> manager) + ('a \<times> manager) \<Rightarrow> bool" where
  "res_agree p r r2 \<longleftrightarrow> value_of r = value_of r2 \<and> agree_on p (manager_of r) (manager_of r2)"

text \<open>
  What a \<^verbatim>\<open>_search_with_*\<close> method returns, given the key it was handed: the dictionary the
  rest of its \<^verbatim>\<open>try\<close> block returns, or \<^verbatim>\<open>None\<close>.
\<close>

definition handed :: "pyerror + string option \<Rightarrow> (string \<Rightarrow> 'r provider_result option outcome)
    \<Rightarrow> 'r provider_result option" where
  "handed key body =
     (case key of
        Inr (Some api_key) \<Rightarrow>
          if api_key = [] then None
          else (case body api_key of Returns d \<Rightarrow> d | Raises e \<Rightarrow> None)
      | _ \<Rightarrow> None)"

section \<open>alibaba\_websailor.py\<close>

text \<open>
  The module defines the class \<^verbatim>\<open>AlibabaWebSailor\<close>, the instance
  \<^verbatim>\<open>alibaba_websailor\<close> and \<^verbatim>\<open>get_websailor\<close> twice. The second definitions replace the
  first when the module is loaded, so \<^verbatim>\<open>get_websailor\<close> returns an instance of the second
  class. Names of the second class that clash with the first carry the suffix 2.

  A Python \<^verbatim>\<open>str\<close> whose encoded size matters is the list of its code points.
  \<open>utf8_size s\<close> is \<^verbatim>\<open>len(s.encode('utf-8'))\<close>; \<open>None\<close> is the UnicodeEncodeError
  that a surrogate code point raises.
\<close>

type_synonym pystr = "nat list"

definition utf8_width :: "nat \<Rightarrow> nat" where
  "utf8_width c = (if c < 128 then 1 else if c < 2048 then 2 else if c < 65536 then 3 else 4)"

definition surrogate :: "nat \<Rightarrow> bool" where
  "surrogate c \<longleftrightarrow> 55296 \<le> c \<and> c \<le> 57343"

definition utf8_size :: "pystr \<Rightarrow> nat option" where
  "utf8_size s = (if list_ex surrogate s then None else Some (sum_list (map utf8_width s)))"

subsection \<open>The first class\<close>

record content_entry =
  url :: pystr
  title :: pystr
  content :: pystr
  snippet :: pystr
  extracted_at :: datetime

text \<open>An element of \<^verbatim>\<open>search_results\<close>; its \<^verbatim>\<open>"type"\<close> is always \<^verbatim>\<open>"social_image"\<close>.\<close>

record 'img social_image =
  platform :: string
  image_query :: pystr
  image_data :: 'img

record 'img websailor =
  search_results :: "'img social_image list"
  content_buffer :: "content_entry list"
  current_search_query :: pystr
  target_content_size :: int
  max_images_per_platform :: nat
  extracted_content_size :: int

text \<open>
  The collaborators of one call: \<open>search_comprehensive page\<close> is what
  \<^verbatim>\<open>orchestrator.search_comprehensive\<close> comes to for the query variant of that page, a list
  of result dictionaries (the empty list stands for every answer without results) or an
  exception; \<open>extraction_time page i\<close> is the clock reading for the i-th result of the
  page; \<open>mock_image\<close> builds the dictionary of a mock image; \<open>saved_file\<close> is what
  \<^verbatim>\<open>_save_search_results\<close> returned.
\<close>

record 'img collaborators =
  search_comprehensive :: "nat \<Rightarrow> (string \<rightharpoonup> pystr) list outcome"
  extraction_time :: "nat \<Rightarrow> nat \<Rightarrow> datetime"
  mock_image :: "string \<Rightarrow> nat \<Rightarrow> 'img"
  saved_file :: string

text \<open>\<^verbatim>\<open>f"{title} {content} {snippet}"\<close>: the three texts with a space between them.\<close>

definition content_text :: "content_entry \<Rightarrow> pystr" where
  "content_text e = title e @ [32] @ content e @ [32] @ snippet e"

text \<open>\<^verbatim>\<open>_extract_and_add_content\<close>; its \<^verbatim>\<open>except\<close> swallows the encoding error.\<close>

definition extract_and_add_content :: "datetime \<Rightarrow> (string \<rightharpoonup> pystr) \<Rightarrow> 'img websailor \<Rightarrow> 'img websailor" where
  "extract_and_add_content now result s =
     (let entry = \<lparr> url = get_or result ''url'' [], title = get_or result ''title'' [],
                     content = get_or result ''content'' [], snippet = get_or result ''snippet'' [],
                     extracted_at = now \<rparr>
      in case utf8_size (content_text entry) of
           None \<Rightarrow> s
         | Some content_size \<Rightarrow>
             if content_size > 100
             then s\<lparr>content_buffer := content_buffer s @ [entry],
                    extracted_content_size := extracted_content_size s + int content_size\<rparr>
             else s)"

text \<open>The \<^verbatim>\<open>for result in search_results["results"]\<close> loop with its \<^verbatim>\<open>break\<close>.\<close>

fun add_results :: "(nat \<Rightarrow> datetime) \<Rightarrow> nat \<Rightarrow> (string \<rightharpoonup> pystr) list \<Rightarrow> 'img websailor \<Rightarrow> 'img websailor" where
  "add_results clock i [] s = s"
| "add_results clock i (result # rest) s =
     (let s' = extract_and_add_content (clock i) result s
      in if extracted_content_size s' \<ge> target_content_size s' then s'
         else add_results clock (Suc i) rest s')"

text \<open>
  The \<^verbatim>\<open>while\<close> loop of \<^verbatim>\<open>_search_text_content\<close> from a given page on. Besides the
  instance it returns the pages for which it called the search, in order. An exception of
  the search ends the loop in the \<^verbatim>\<open>except\<close> of the method.
\<close>

function search_text_content_from :: "'img collaborators \<Rightarrow> nat \<Rightarrow> nat list \<Rightarrow> 'img websailor
    \<Rightarrow> nat list \<times> 'img websailor" where
  "search_text_content_from env page asked s =
     (if extracted_content_size s < target_content_size s
      then (case search_comprehensive env page of
              Raises e \<Rightarrow> (asked @ [page], s)
            | Returns batch \<Rightarrow>
                if batch = [] then (asked @ [page], s)
                else (let s' = add_results (extraction_time env page) 0 batch s
                      in if page + 1 > 50 then (asked @ [page], s')
                         else search_text_content_from env (page + 1) (asked @ [page]) s'))
      else (asked, s))"
  by pat_completeness auto
termination
  by (relation "measure (\<lambda>(env, page, asked, s). 51 - page)") auto

definition search_text_content :: "'img collaborators \<Rightarrow> 'img websailor \<Rightarrow> nat list \<times> 'img websailor" where
  "search_text_content env s = search_text_content_from env 1 [] s"




text \<open>
  The dictionary \<^verbatim>\<open>execute_massive_search\<close> returns (its \<^verbatim>\<open>message\<close>, a formatted
  floating-point number, is left out). Nothing in the \<^verbatim>\<open>try\<close> block raises: the three
  methods it calls catch their exceptions themselves.
\<close>

record massive_report =
  succeeded :: bool
  report_query :: pystr
  content_size :: int
  text_entries :: nat
  social_images :: "(string \<times> nat) list"
  result_file :: string


text \<open>The size an entry of the buffer was accepted with.\<close>

definition entry_bytes :: "content_entry \<Rightarrow> nat" where
  "entry_bytes e = (case utf8_size (content_text e) of None \<Rightarrow> 0 | Some n \<Rightarrow> n)"

definition accepted_bytes :: "content_entry list \<Rightarrow> int" where
  "accepted_bytes buffer = int (sum_list (map entry_bytes buffer))"

text \<open>The entry \<^verbatim>\<open>_extract_and_add_content\<close> builds from a result.\<close>

definition entry_of :: "datetime \<Rightarrow> (string \<rightharpoonup> pystr) \<Rightarrow> content_entry" where
  "entry_of now result =
     \<lparr> url = get_or result ''url'' [], title = get_or result ''title'' [],
       content = get_or result ''content'' [], snippet = get_or result ''snippet'' [],
       extracted_at = now \<rparr>"

text \<open>
  The text whose size \<^verbatim>\<open>_extract_and_add_content\<close> measures for a result, its encoded
  size (0 when it cannot be encoded), and the test the method makes on it.
\<close>

definition result_text :: "(string \<rightharpoonup> pystr) \<Rightarrow> pystr" where
  "result_text result =
     get_or result ''title'' [] @ [32] @ get_or result ''content'' [] @ [32] @ get_or result ''snippet'' []"

definition result_bytes :: "(string \<rightharpoonup> pystr) \<Rightarrow> nat" where
  "result_bytes result = (case utf8_size (result_text result) of None \<Rightarrow> 0 | Some n \<Rightarrow> n)"

definition acceptable :: "(string \<rightharpoonup> pystr) \<Rightarrow> bool" where
  "acceptable result \<longleftrightarrow>
     (case utf8_size (result_text result) of None \<Rightarrow> False | Some n \<Rightarrow> n > 100)"

text \<open>
  The accounting invariant of the first class: the accumulator is the sum of the sizes
  the buffered entries were accepted with, each above the floor of 100 bytes.
\<close>

definition accounted :: "'img websailor \<Rightarrow> bool" where
  "accounted s \<longleftrightarrow>
     extracted_content_size s = accepted_bytes (content_buffer s) \<and>
     list_all (\<lambda>e. entry_bytes e > 100) (content_buffer s)"

text \<open>
  The loop has stopped as soon as the target was reached: when the accumulator is at or
  above the target, it was below it before the last buffered entry was added.
\<close>

definition just_reached :: "'img websailor \<Rightarrow> bool" where
  "just_reached s \<longleftrightarrow>
     (extracted_content_size s \<ge> target_content_size s \<longrightarrow>
        content_buffer s \<noteq> [] \<and>
        extracted_content_size s - int (entry_bytes (last (content_buffer s))) < target_content_size s)"

text \<open>
  The scenario of a budget of 1000 bytes: every result the search returns that would be
  accepted has exactly 300 bytes, and every batch that is not empty holds such a result.
\<close>

definition uniform_pages :: "'img collaborators \<Rightarrow> bool" where
  "uniform_pages env \<longleftrightarrow>
     (\<forall>page batch. search_comprehensive env page = Returns batch \<longrightarrow>
        (\<forall>r\<in>set batch. acceptable r \<longrightarrow> result_bytes r = 300) \<and>
        (batch \<noteq> [] \<longrightarrow> (\<exists>r\<in>set batch. acceptable r)))"

text \<open>The accounting invariant with every buffered entry of exactly 300 bytes.\<close>

definition all_300 :: "'img websailor \<Rightarrow> bool" where
  "all_300 s \<longleftrightarrow> accounted s \<and> list_all (\<lambda>e. entry_bytes e = 300) (content_buffer s)"

subsection \<open>The second class\<close>

text \<open>
  The search URLs of \<^verbatim>\<open>_generate_search_urls\<close>, by their parts: the query and the
  \<^verbatim>\<open>start\<close> or \<^verbatim>\<open>first\<close> offset, or the site of a \<^verbatim>\<open>site:\<close> query.
\<close>

datatype search_url =
    Google pystr nat
  | Bing pystr nat
  | DuckDuckGo pystr
  | Google_site string pystr

definition marketing_sites :: "string list" where
  "marketing_sites =
     [''blog.hubspot.com'', ''neilpatel.com'', ''moz.com'', ''searchengineland.com'',
      ''socialmediaexaminer.com'', ''contentmarketinginstitute.com'', ''copyblogger.com'',
      ''marketingland.com'']"

definition generate_search_urls :: "pystr \<Rightarrow> search_url list" where
  "generate_search_urls query =
     map (\<lambda>page. Google query (page * 10)) [0..<10] @
     map (\<lambda>page. Bing query (page * 10 + 1)) [0..<5] @
     [DuckDuckGo query] @
     map (\<lambda>site. Google_site site query) marketing_sites"

text \<open>The dictionary \<^verbatim>\<open>_parse_html_content\<close> returns.\<close>

record page_content =
  url2 :: search_url
  title2 :: pystr
  description :: pystr
  text2 :: pystr
  extracted_at2 :: datetime
  size_bytes :: nat

text \<open>
  The JSON document of a result file: the metadata, the saved text content, the images by
  platform and the statistics. \<open>final_size\<close> is the byte count whose quotient by 1024
  \<^verbatim>\<open>_finalize_result_file\<close> stores.
\<close>

record 'img result_document =
  meta_query :: pystr
  meta_product_name :: pystr
  created_at :: datetime
  status :: string
  completed_at :: "datetime option"
  text_content :: "page_content list"
  images_of :: "string \<Rightarrow> 'img list"
  total_sources :: nat
  content_size_bytes :: int
  final_size :: "int option"

text \<open>
  The instance (its HTTP session has no part in what follows) together with the result
  files on disk, by path. Writing a file is taken to succeed.
\<close>

record 'img websailor2 =
  extracted_content :: "page_content list"
  total_content_size :: int
  target_size :: int
  files :: "string \<rightharpoonup> 'img result_document"

definition new_websailor2 :: "(string \<rightharpoonup> 'img result_document) \<Rightarrow> 'img websailor2" where
  "new_websailor2 disk =
     \<lparr> extracted_content = [], total_content_size = 0, target_size = 500 * 1024, files = disk \<rparr>"

text \<open>
  The collaborators of one call of the second \<^verbatim>\<open>execute_massive_search\<close>:
  \<open>fetched u\<close> is the title, meta description and combined text that
  \<^verbatim>\<open>_parse_html_content\<close> extracts from the page at \<open>u\<close>, or \<open>None\<close> when the request raises,
  answers with another status than 200 or the page cannot be parsed; \<open>fetch_time\<close> and
  \<open>call_time\<close> are clock readings; \<open>path_of\<close> is the file name made from the product
  name; \<open>instagram\<close> is what the Instagram extractor comes to and \<open>youtube\<close> the
  thumbnails that \<^verbatim>\<open>_extract_youtube_thumbnails\<close> returns.
\<close>

record 'img collaborators2 =
  fetched :: "search_url \<Rightarrow> (pystr \<times> pystr \<times> pystr) option"
  fetch_time :: "search_url \<Rightarrow> datetime"
  call_time :: datetime
  path_of :: "pystr \<Rightarrow> string"
  instagram :: "'img list outcome"
  youtube :: "'img list"

definition parse_html_content :: "'img collaborators2 \<Rightarrow> search_url \<Rightarrow> page_content option" where
  "parse_html_content env u =
     (case fetched env u of
        None \<Rightarrow> None
      | Some (title_text, meta_description, combined_text) \<Rightarrow>
          (case utf8_size combined_text of
             None \<Rightarrow> None
           | Some n \<Rightarrow> Some \<lparr> url2 = u, title2 = title_text, description = meta_description,
                                 text2 = combined_text, extracted_at2 = fetch_time env u,
                                 size_bytes = n \<rparr>))"

text \<open>
  \<^verbatim>\<open>_save_content_chunk\<close>: opening a file that is not there raises, and the \<^verbatim>\<open>except\<close>
  leaves everything as it was.
\<close>

definition save_content_chunk :: "page_content \<Rightarrow> string \<Rightarrow> 'img websailor2 \<Rightarrow> 'img websailor2" where
  "save_content_chunk c file_path s =
     (case files s file_path of
        None \<Rightarrow> s
      | Some doc \<Rightarrow>
          s\<lparr>total_content_size := total_content_size s + int (size_bytes c),
             files := (files s)(file_path \<mapsto>
                doc\<lparr>text_content := text_content doc @ [c],
                     total_sources := total_sources doc + 1,
                     content_size_bytes := content_size_bytes doc + int (size_bytes c)\<rparr>)\<rparr>)"

text \<open>
  \<^verbatim>\<open>_extract_content_from_url\<close> runs in two parts. Up to its first \<^verbatim>\<open>await\<close> it tests the
  budget; \<open>launch\<close> is that test. Once the response is there it parses the page and saves
  the content when the text has more than 100 characters; \<open>complete\<close> is that part and
  runs without interruption.
\<close>

definition launch :: "'img websailor2 \<Rightarrow> bool" where
  "launch s \<longleftrightarrow> \<not> total_content_size s \<ge> target_size s"

definition complete :: "'img collaborators2 \<Rightarrow> string \<Rightarrow> search_url \<Rightarrow> 'img websailor2 \<Rightarrow> 'img websailor2" where
  "complete env file_path u s =
     (case parse_html_content env u of
        None \<Rightarrow> s
      | Some c \<Rightarrow> if length (text2 c) > 100 then save_content_chunk c file_path s else s)"

text \<open>
  \<^verbatim>\<open>await asyncio.gather(*tasks)\<close>: the event loop starts every task of the batch before
  any response can arrive, so each task tests the budget against the accumulator as it is
  when the batch starts; the tasks that passed then complete one after the other. They are
  taken to complete in the order of the batch; the accumulator they leave does not depend
  on that order.
\<close>

definition gather :: "'img collaborators2 \<Rightarrow> string \<Rightarrow> search_url list \<Rightarrow> 'img websailor2 \<Rightarrow> 'img websailor2" where
  "gather env file_path tasks s =
     (if launch s then fold (complete env file_path) tasks s else s)"

text \<open>
  The loop of \<^verbatim>\<open>_massive_text_search\<close> over the URLs that are left, with the tasks
  collected so far; after the loop (also after its \<^verbatim>\<open>break\<close>) the remaining tasks run.
\<close>

fun massive_loop :: "'img collaborators2 \<Rightarrow> string \<Rightarrow> search_url list \<Rightarrow> search_url list
    \<Rightarrow> 'img websailor2 \<Rightarrow> 'img websailor2" where
  "massive_loop env file_path [] tasks s =
     (if tasks \<noteq> [] then gather env file_path tasks s else s)"
| "massive_loop env file_path (u # rest) tasks s =
     (if total_content_size s \<ge> target_size s
      then (if tasks \<noteq> [] then gather env file_path tasks s else s)
      else (let tasks' = tasks @ [u]
            in if length tasks' \<ge> 10
               then massive_loop env file_path rest [] (gather env file_path tasks' s)
               else massive_loop env file_path rest tasks' s))"

definition massive_text_search :: "'img collaborators2 \<Rightarrow> pystr \<Rightarrow> string \<Rightarrow> 'img websailor2 \<Rightarrow> 'img websailor2" where
  "massive_text_search env query file_path s =
     massive_loop env file_path (generate_search_urls query) [] s"

definition initialize_result_file :: "'img collaborators2 \<Rightarrow> string \<Rightarrow> pystr \<Rightarrow> pystr
    \<Rightarrow> 'img websailor2 \<Rightarrow> 'img websailor2" where
  "initialize_result_file env file_path query product_name s =
     s\<lparr>files := (files s)(file_path \<mapsto>
         \<lparr> meta_query = query, meta_product_name = product_name, created_at = call_time env,
           status = ''in_progress'', completed_at = None, text_content = [],
           images_of = (\<lambda>name. []), total_sources = 0, content_size_bytes = 0,
           final_size = None \<rparr>)\<rparr>"

definition save_social_images :: "string \<Rightarrow> string \<Rightarrow> 'img list \<Rightarrow> 'img websailor2 \<Rightarrow> 'img websailor2" where
  "save_social_images file_path name images s =
     (case files s file_path of
        None \<Rightarrow> s
      | Some doc \<Rightarrow> s\<lparr>files := (files s)(file_path \<mapsto> doc\<lparr>images_of := (images_of doc)(name := images)\<rparr>)\<rparr>)"

text \<open>
  \<^verbatim>\<open>_social_media_image_search\<close>: an exception of the Instagram extractor (or of its
  import) ends the method in its \<^verbatim>\<open>except\<close>; the Facebook extraction returns no image.
\<close>

definition social_media_image_search :: "'img collaborators2 \<Rightarrow> string \<Rightarrow> 'img websailor2 \<Rightarrow> 'img websailor2" where
  "social_media_image_search env file_path s =
     (case instagram env of
        Raises e \<Rightarrow> s
      | Returns instagram_images \<Rightarrow>
          save_social_images file_path ''youtube'' (youtube env)
            (save_social_images file_path ''facebook'' []
               (save_social_images file_path ''instagram'' instagram_images s)))"

definition finalize_result_file :: "'img collaborators2 \<Rightarrow> string \<Rightarrow> 'img websailor2 \<Rightarrow> 'img websailor2" where
  "finalize_result_file env file_path s =
     (case files s file_path of
        None \<Rightarrow> s
      | Some doc \<Rightarrow>
          s\<lparr>files := (files s)(file_path \<mapsto>
               doc\<lparr>status := ''completed'', completed_at := Some (call_time env),
                    final_size := Some (total_content_size s)\<rparr>)\<rparr>)"

text \<open>The dictionary the second \<^verbatim>\<open>execute_massive_search\<close> returns with \<^verbatim>\<open>'success': True\<close>.\<close>

record massive_report2 =
  succeeded2 :: bool
  file_path2 :: string
  content_size2 :: int
  timestamp2 :: datetime

definition execute_massive_search2 :: "'img collaborators2 \<Rightarrow> pystr \<Rightarrow> pystr \<Rightarrow> 'img websailor2
    \<Rightarrow> massive_report2 \<times> 'img websailor2" where
  "execute_massive_search2 env query product_name s0 =
     (let file_path = ''RES_BUSCA_'' @ path_of env product_name @ ''.json'';
          s1 = initialize_result_file env file_path query product_name s0;
          s2 = massive_text_search env query file_path s1;
          s3 = social_media_image_search env file_path s2;
          s4 = finalize_result_file env file_path s3
      in (\<lparr> succeeded2 = True, file_path2 = file_path, content_size2 = total_content_size s4,
             timestamp2 = call_time env \<rparr>, s4))"

text \<open>
  The same scenario for the second class: every URL leads to a page whose text has more
  than 100 characters and encodes to exactly \<open>b\<close> bytes.
\<close>

definition uniform_fetch :: "nat \<Rightarrow> 'img collaborators2 \<Rightarrow> bool" where
  "uniform_fetch b env \<longleftrightarrow>
     (\<forall>u. \<exists>title_text meta_description combined_text.
        fetched env u = Some (title_text, meta_description, combined_text) \<and>
        utf8_size combined_text = Some b \<and> length combined_text > 100)"

text \<open>The number of contents saved in a result file (0 when the file is not there).\<close>

definition saved_count :: "'img websailor2 \<Rightarrow> string \<Rightarrow> nat" where
  "saved_count s file_path = (case files s file_path of None \<Rightarrow> 0 | Some doc \<Rightarrow> length (text_content doc))"

text \<open>
  The contents saved in a result file, in the order they were saved (none when the file is
  not there), and the sum of the sizes recorded with them.
\<close>

definition saved_of :: "'img websailor2 \<Rightarrow> string \<Rightarrow> page_content list" where
  "saved_of s file_path = (case files s file_path of None \<Rightarrow> [] | Some doc \<Rightarrow> text_content doc)"



section \<open>Concrete pools, runs and instances\<close>

text \<open>A clock that shows the same instant at every reading of one call.\<close>

definition frozen_clock :: "datetime \<Rightarrow> nat \<Rightarrow> datetime" where
  "frozen_clock t tick = t"

definition demo_boot :: "string \<Rightarrow> string \<Rightarrow> datetime" where
  "demo_boot service api_key = (if api_key = ''k1'' then seconds 7200 else seconds 7100)"

definition demo :: manager where
  "demo = init_manager demo_boot [''exa'' \<mapsto> [''k1'', ''k2'']]"

definition demo_one_error :: manager where
  "demo_one_error = reported (report_error ''exa'' ''k1'' ''generic'' demo)"

text \<open>
  States reached from \<open>demo\<close>: both credentials reported with an exceeded quota; \<open>k1\<close>
  selected at 7200 s; \<open>k1\<close> selected and then reported as rate limited, or as over quota.
\<close>

definition demo_exhausted :: manager where
  "demo_exhausted =
     reported (report_error ''exa'' ''k2'' ''quota_exceeded''
       (reported (report_error ''exa'' ''k1'' ''quota_exceeded'' demo)))"

definition demo_selected :: manager where
  "demo_selected = manager_of (get_next_api (frozen_clock (seconds 7200)) ''exa'' demo)"

definition demo_rate_limited :: manager where
  "demo_rate_limited = reported (report_error ''exa'' ''k1'' ''rate_limit'' demo_selected)"

definition demo_quota :: manager where
  "demo_quota = reported (report_error ''exa'' ''k1'' ''quota_exceeded'' demo_selected)"

text \<open>Calls one second apart, the readings within a call one microsecond apart.\<close>

definition demo_clocks :: "nat \<Rightarrow> nat \<Rightarrow> datetime" where
  "demo_clocks c tick = seconds (7200 + int c) + int tick"

text \<open>
  Three configured providers with one key each, and a run in which Exa returns one hit,
  Tavily raises a rate-limit error and SerpAPI returns an empty list.
\<close>

definition trio :: manager where
  "trio = init_manager demo_boot
     [''exa'' \<mapsto> [''exa-key-1''], ''tavily'' \<mapsto> [''tvly-key-1''], ''serpapi'' \<mapsto> [''serp-key-1'']]"

definition trio_world :: "(string, unit) world" where
  "trio_world =
     \<lparr> now_for = (\<lambda>service. frozen_clock (seconds 7200)),
       exa_installed = True,
       exa_search_and_contents = (\<lambda>api_key query. Returns [''first hit'']),
       tavily_post = (\<lambda>api_key query. Raises ''429: rate limit exceeded''),
       serpapi_get = (\<lambda>api_key query. Returns []),
       websailor_result = (),
       report_time = seconds 7203 \<rparr>"





text \<open>
  For the second class: collaborators that return a page of 300 letters for every URL, and
  an instance with the budget set to 1000 whose result file has just been initialised.
\<close>

definition burst :: "unit collaborators2" where
  "burst = \<lparr> fetched = (\<lambda>u. Some ([], [], replicate 300 97)), fetch_time = (\<lambda>u. seconds 7200),
             call_time = seconds 7200, path_of = (\<lambda>product_name. ''p''),
             instagram = Returns [], youtube = [] \<rparr>"

definition primed :: "unit websailor2" where
  "primed = initialize_result_file burst ''RES_BUSCA_p.json'' [113] [112]
              ((new_websailor2 Map.empty)\<lparr>target_size := 1000\<rparr>)"

text \<open>
  For the first class: a search that returns, for every page, one result of exactly 300
  bytes (a title of 298 letters and the two spaces), and an instance with the budget 1000.
\<close>

definition result_300 :: "string \<rightharpoonup> pystr" where
  "result_300 = [''title'' \<mapsto> replicate 298 97]"

definition steady :: "unit collaborators" where
  "steady = \<lparr> search_comprehensive = (\<lambda>page. Returns [result_300]),
              extraction_time = (\<lambda>page i. seconds 7200),
              mock_image = (\<lambda>name i. ()),
              saved_file = ''RES_BUSCA_q.json'' \<rparr>"

definition fresh_1000 :: "unit websailor" where
  "fresh_1000 = \<lparr> search_results = [], content_buffer = [], current_search_query = [113],
                  target_content_size = 1000, max_images_per_platform = 10,
                  extracted_content_size = 0 \<rparr>"

text \<open>
  Two consecutive calls of the second \<^verbatim>\<open>execute_massive_search\<close> on the instance that
  \<^verbatim>\<open>get_websailor\<close> returns, freshly constructed, with pages of 60000 letters.
\<close>

definition flood :: "unit collaborators2" where
  "flood = \<lparr> fetched = (\<lambda>u. Some ([], [], replicate 60000 97)), fetch_time = (\<lambda>u. seconds 7200),
             call_time = seconds 7200, path_of = (\<lambda>product_name. ''p''),
             instagram = Returns [], youtube = [] \<rparr>"

definition first_call :: "massive_report2 \<times> unit websailor2" where
  "first_call = execute_massive_search2 flood [113] [112] (new_websailor2 Map.empty)"

definition second_call :: "massive_report2 \<times> unit websailor2" where
  "second_call = execute_massive_search2 flood [113] [112] (snd first_call)"





section \<open>Lemmas on the rotation manager\<close>

lemma wf_serviceD:
  assumes "wf_service m p ks"
  shows "\<exists>ec lu cp i. api_configs m p = Some ks \<and> ks \<noteq> [] \<and>
    error_counts m p = Some ec \<and> last_used m p = Some lu \<and> cooldown_periods m p = Some cp \<and>
    current_indices m p = Some i \<and> i < length ks \<and>
    (\<forall>k\<in>set ks. ec k \<noteq> None \<and> lu k \<noteq> None \<and> cp k \<noteq> None)"
proof -
  from assms have ne: "ks \<noteq> []" and cfg: "api_configs m p = Some ks"
    and all: "\<forall>k\<in>set ks. error_count_of m p k \<noteq> None \<and> last_used_of m p k \<noteq> None \<and> cooldown_of m p k \<noteq> None"
    by (auto simp: wf_service_def list_all_iff)
  from assms obtain i where i: "current_indices m p = Some i" "i < length ks"
    by (auto simp: wf_service_def split: option.splits)
  from ne have "hd ks \<in> set ks" by simp
  with all have h: "error_count_of m p (hd ks) \<noteq> None" "last_used_of m p (hd ks) \<noteq> None" "cooldown_of m p (hd ks) \<noteq> None"
    by auto
  then obtain ec lu cp where d: "error_counts m p = Some ec" "last_used m p = Some lu" "cooldown_periods m p = Some cp"
    by (auto simp: error_count_of_def last_used_of_def cooldown_of_def split: option.splits)
  with all have "\<forall>k\<in>set ks. ec k \<noteq> None \<and> lu k \<noteq> None \<and> cp k \<noteq> None"
    by (auto simp: error_count_of_def last_used_of_def cooldown_of_def)
  with ne cfg i d show ?thesis by blast
qed

lemma wf_service_cursorD:
  "wf_service m p ks \<Longrightarrow> current_indices m p = Some i \<Longrightarrow> i < length ks \<and> 0 < length ks"
  by (auto simp: wf_service_def)

lemma is_api_available_wf:
  assumes "wf_service m p ks"
  shows "is_api_available now p k m = Inr (available now m p k)"
proof -
  from wf_serviceD [OF assms] obtain ec lu cp where "error_counts m p = Some ec" "last_used m p = Some lu" "cooldown_periods m p = Some cp"
    by blast
  then show ?thesis by (simp add: available_def is_api_available_def)
qed

lemma is_api_available_cursor [simp]:
  "is_api_available now p k (m\<lparr>current_indices := c\<rparr>) = is_api_available now p k m"
  by (simp add: is_api_available_def split: option.splits)

lemma available_cursor [simp]:
  "available now (m\<lparr>current_indices := c\<rparr>) p k = available now m p k"
  by (simp add: available_def)

lemma wf_service_cursor:
  "wf_service m p ks \<Longrightarrow> j < length ks \<Longrightarrow>
   wf_service (m\<lparr>current_indices := (current_indices m)(p \<mapsto> j)\<rparr>) p ks"
  by (simp add: wf_service_def error_count_of_def last_used_of_def cooldown_of_def)

lemma scan_none:
  assumes "wf_service m p ks" "current_indices m p = Some i"
    and "\<forall>j<n. \<not> available (clock (t + j)) m p (ks ! ((i + j) mod length ks))"
  shows "scan clock p ks n t m = Inr (None, set_cursor m p ((i + n) mod length ks))"
  using assms
proof (induction n arbitrary: m i t)
  case 0
  then have "i < length ks" by (auto dest: wf_service_cursorD)
  with 0 show ?case by (simp add: set_cursor_def map_upd_triv)
next
  case (Suc n)
  let ?N = "length ks"
  let ?m2 = "m\<lparr>current_indices := (current_indices m)(p \<mapsto> (i + 1) mod ?N)\<rparr>"
  from Suc.prems have i: "i < ?N" and N: "0 < ?N" by (auto dest: wf_service_cursorD)
  from Suc.prems(3) have "\<not> available (clock (t + 0)) m p (ks ! ((i + 0) mod ?N))" by blast
  with i have na: "is_api_available (clock t) p (ks ! i) m = Inr False"
    by (simp add: is_api_available_wf [OF Suc.prems(1)])
  have wf2: "wf_service ?m2 p ks" using Suc.prems(1) N by (intro wf_service_cursor) simp_all
  have c2: "current_indices ?m2 p = Some ((i + 1) mod ?N)" by simp
  have rest: "\<forall>j<n. \<not> available (clock (Suc t + j)) ?m2 p (ks ! (((i + 1) mod ?N + j) mod ?N))"
  proof (intro allI impI)
    fix j assume "j < n"
    then have "\<not> available (clock (t + Suc j)) m p (ks ! ((i + Suc j) mod ?N))"
      using Suc.prems(3) by (meson Suc_less_eq)
    moreover have "((i + 1) mod ?N + j) mod ?N = (i + Suc j) mod ?N"
      by (simp add: mod_add_left_eq)
    ultimately show "\<not> available (clock (Suc t + j)) ?m2 p (ks ! (((i + 1) mod ?N + j) mod ?N))"
      by simp
  qed
  have "scan clock p ks n (Suc t) ?m2 = Inr (None, set_cursor ?m2 p (((i + 1) mod ?N + n) mod ?N))"
    by (rule Suc.IH [OF wf2 c2 rest])
  moreover have "((i + 1) mod ?N + n) mod ?N = (i + Suc n) mod ?N"
    by (simp add: mod_add_left_eq)
  ultimately show ?case using Suc.prems(2) i na
    by (simp add: set_cursor_def)
qed

lemma returning_simps [simp]:
  "returning r (Inl e) = Inl e" "returning r (Inr s) = Inr (r, s)"
  by (simp_all add: returning_def)

lemma update_usage_wf:
  assumes "wf_service m p ks" "k \<in> set ks"
  obtains m' where "update_usage now p k m = Inr m'"
    "api_configs m' = api_configs m" "current_indices m' = current_indices m"
    "cooldown_periods m' = cooldown_periods m"
    "last_used_of m' p k = Some now" "error_count_of m' p k = Some 0"
    "\<And>q k'. (q, k') \<noteq> (p, k) \<Longrightarrow> error_count_of m' q k' = error_count_of m q k'"
    "\<And>q k'. (q, k') \<noteq> (p, k) \<Longrightarrow> last_used_of m' q k' = last_used_of m q k'"
    "\<And>q. q \<noteq> p \<Longrightarrow> error_counts m' q = error_counts m q \<and> last_used m' q = last_used m q"
proof -
  from wf_serviceD [OF assms(1)] obtain ec lu cp where d: "error_counts m p = Some ec" "last_used m p = Some lu"
    and all: "\<forall>k\<in>set ks. ec k \<noteq> None \<and> lu k \<noteq> None \<and> cp k \<noteq> None"
    by blast
  from all assms(2) obtain n where n: "ec k = Some n" by auto
  let ?m' = "m\<lparr>last_used := (last_used m)(p \<mapsto> lu(k \<mapsto> now)),
                error_counts := (error_counts m)(p \<mapsto> ec(k \<mapsto> 0))\<rparr>"
  have "update_usage now p k m = Inr ?m'"
    using d n by (simp add: update_usage_def)
  moreover have "\<And>q k'. (q, k') \<noteq> (p, k) \<Longrightarrow> error_count_of ?m' q k' = error_count_of m q k'"
    using d by (auto simp: error_count_of_def)
  moreover have "\<And>q k'. (q, k') \<noteq> (p, k) \<Longrightarrow> last_used_of ?m' q k' = last_used_of m q k'"
    using d by (auto simp: last_used_of_def)
  ultimately show thesis
    by (intro that [of ?m']) (simp_all add: last_used_of_def error_count_of_def)
qed

lemma wf_service_eqI:
  assumes "wf_service m p ks" "api_configs m' p = api_configs m p" "current_indices m' p = current_indices m p"
    "\<And>k. k \<in> set ks \<Longrightarrow> error_count_of m' p k \<noteq> None \<and> last_used_of m' p k \<noteq> None \<and> cooldown_of m' p k \<noteq> None"
  shows "wf_service m' p ks"
  using assms by (simp add: wf_service_def list_all_iff)

lemma scan_some:
  assumes "wf_service m p ks" "current_indices m p = Some i" "j < n"
    and "\<forall>j'<j. \<not> available (clock (t + j')) m p (ks ! ((i + j') mod length ks))"
    and "available (clock (t + j)) m p (ks ! ((i + j) mod length ks))"
  shows "scan clock p ks n t m =
     returning (Some (ks ! ((i + j) mod length ks)))
       (update_usage (clock (Suc (t + j))) p (ks ! ((i + j) mod length ks))
             (set_cursor m p ((i + j) mod length ks)))"
  using assms
proof (induction j arbitrary: n m i t)
  case 0
  then obtain n' where n: "n = Suc n'" by (cases n) auto
  from 0 have i: "i < length ks" by (auto dest: wf_service_cursorD)
  from 0(5) i have "is_api_available (clock t) p (ks ! i) m = Inr True"
    by (simp add: available_def)
  with 0(2) i show ?case
    by (simp add: n set_cursor_def map_upd_triv Let_def returning_def split: sum.splits)
next
  case (Suc j)
  let ?N = "length ks"
  let ?m2 = "m\<lparr>current_indices := (current_indices m)(p \<mapsto> (i + 1) mod ?N)\<rparr>"
  from Suc.prems obtain n' where n: "n = Suc n'" "j < n'" by (cases n) auto
  from Suc.prems have i: "i < ?N" and N: "0 < ?N" by (auto dest: wf_service_cursorD)
  from Suc.prems(4) have "\<not> available (clock (t + 0)) m p (ks ! ((i + 0) mod ?N))" by blast
  with i have na: "is_api_available (clock t) p (ks ! i) m = Inr False"
    by (simp add: is_api_available_wf [OF Suc.prems(1)])
  have wf2: "wf_service ?m2 p ks" using Suc.prems(1) N by (intro wf_service_cursor) simp_all
  have c2: "current_indices ?m2 p = Some ((i + 1) mod ?N)" by simp
  have eq: "\<And>x. (Suc i mod ?N + x) mod ?N = Suc (i + x) mod ?N"
    by (simp add: mod_add_left_eq)
  have rest: "\<forall>j'<j. \<not> available (clock (Suc t + j')) ?m2 p (ks ! (((i + 1) mod ?N + j') mod ?N))"
  proof (intro allI impI)
    fix j' assume "j' < j"
    then have "\<not> available (clock (t + Suc j')) m p (ks ! ((i + Suc j') mod ?N))"
      using Suc.prems(4) by (meson Suc_less_eq)
    then show "\<not> available (clock (Suc t + j')) ?m2 p (ks ! (((i + 1) mod ?N + j') mod ?N))"
      by (simp add: eq)
  qed
  have av: "available (clock (Suc t + j)) ?m2 p (ks ! (((i + 1) mod ?N + j) mod ?N))"
    using Suc.prems(5) by (simp add: eq)
  have "scan clock p ks n' (Suc t) ?m2 =
     returning (Some (ks ! (((i + 1) mod ?N + j) mod ?N)))
       (update_usage (clock (Suc (Suc t + j))) p (ks ! (((i + 1) mod ?N + j) mod ?N))
             (set_cursor ?m2 p (((i + 1) mod ?N + j) mod ?N)))"
    by (rule Suc.IH [OF wf2 c2 n(2) rest av])
  then show ?case using Suc.prems(2) i na
    by (simp add: n eq set_cursor_def Let_def)
qed

lemma min_by_in: "min_by f b xs \<in> set (b # xs)"
  by (induction xs arbitrary: b) (auto split: if_splits)

lemma min_by_le_best: "f (min_by f b xs) \<le> f b"
proof (induction xs arbitrary: b)
  case Nil
  show ?case by simp
next
  case (Cons x xs)
  have "f (min_by f (if f x < f b then x else b) xs) \<le> f (if f x < f b then x else b)"
    by (rule Cons.IH)
  then show ?case by (auto split: if_splits)
qed

lemma min_by_least: "y \<in> set (b # xs) \<Longrightarrow> f (min_by f b xs) \<le> f y"
proof (induction xs arbitrary: b)
  case Nil
  then show ?case by simp
next
  case (Cons x xs)
  let ?b = "if f x < f b then x else b"
  have le: "f (min_by f ?b xs) \<le> f ?b" by (rule min_by_le_best)
  from Cons.prems consider "y = b" | "y = x" | "y \<in> set xs" by auto
  then show ?case
  proof cases
    case 1
    with le show ?thesis by (auto split: if_splits)
  next
    case 2
    with le show ?thesis by (auto split: if_splits)
  next
    case 3
    then have "y \<in> set (?b # xs)" by simp
    then have "f (min_by f ?b xs) \<le> f y" by (rule Cons.IH)
    then show ?thesis by simp
  qed
qed

lemma update_usage_selected:
  assumes "wf_service m p ks" "k \<in> set ks" "j < length ks"
  shows "\<exists>m'. update_usage now p k (set_cursor m p j) = Inr m' \<and> selected m p k now j m'"
proof -
  have wf: "wf_service (set_cursor m p j) p ks"
    unfolding set_cursor_def using assms(1,3) by (rule wf_service_cursor)
  from update_usage_wf [OF wf assms(2), of now] obtain m' where
    "update_usage now p k (set_cursor m p j) = Inr m'"
    "api_configs m' = api_configs (set_cursor m p j)"
    "current_indices m' = current_indices (set_cursor m p j)"
    "cooldown_periods m' = cooldown_periods (set_cursor m p j)"
    "last_used_of m' p k = Some now" "error_count_of m' p k = Some 0"
    "\<And>q k'. (q, k') \<noteq> (p, k) \<Longrightarrow> error_count_of m' q k' = error_count_of (set_cursor m p j) q k'"
    "\<And>q k'. (q, k') \<noteq> (p, k) \<Longrightarrow> last_used_of m' q k' = last_used_of (set_cursor m p j) q k'"
    "\<And>q. q \<noteq> p \<Longrightarrow> error_counts m' q = error_counts (set_cursor m p j) q \<and> last_used m' q = last_used (set_cursor m p j) q"
    by blast
  then show ?thesis
    by (intro exI [of _ m'])
       (simp add: selected_def set_cursor_def error_count_of_def last_used_of_def)
qed

lemma selected_wf:
  assumes "selected m p k now j m'" "wf_service m p ks" "j < length ks"
  shows "wf_service m' p ks"
proof -
  have "error_count_of m' p k' \<noteq> None \<and> last_used_of m' p k' \<noteq> None \<and> cooldown_of m' p k' \<noteq> None"
    if "k' \<in> set ks" for k'
  proof -
    from assms(2) that have old: "error_count_of m p k' \<noteq> None" "last_used_of m p k' \<noteq> None" "cooldown_of m p k' \<noteq> None"
      by (auto simp: wf_service_def list_all_iff)
    show ?thesis
    proof (cases "k' = k")
      case True
      with assms(1) old show ?thesis by (simp add: selected_def cooldown_of_def)
    next
      case False
      with assms(1) old show ?thesis by (simp add: selected_def cooldown_of_def)
    qed
  qed
  with assms show ?thesis
    by (simp add: wf_service_def list_all_iff selected_def)
qed

lemma selected_wf_other:
  assumes "selected m p k now j m'" "wf_service m q ks" "q \<noteq> p"
  shows "wf_service m' q ks"
  using assms
  by (simp add: wf_service_def list_all_iff selected_def error_count_of_def last_used_of_def cooldown_of_def)

lemma get_next_api_first:
  assumes wf: "wf_service m p ks" and i: "current_indices m p = Some i" and j: "j < length ks"
    and no: "\<forall>j'<j. \<not> available (clock j') m p (ks ! ((i + j') mod length ks))"
    and av: "available (clock j) m p (ks ! ((i + j) mod length ks))"
  shows "\<exists>m'. get_next_api clock p m = Inr (Some (ks ! ((i + j) mod length ks)), m') \<and>
           selected m p (ks ! ((i + j) mod length ks)) (clock (Suc j)) ((i + j) mod length ks) m'"
proof -
  let ?k = "ks ! ((i + j) mod length ks)"
  from wf have cfg: "api_configs m p = Some ks" and ne: "ks \<noteq> []"
    by (auto simp: wf_service_def)
  then have N: "0 < length ks" by simp
  then have kin: "?k \<in> set ks" by simp
  have "scan clock p ks (length ks) 0 m =
          returning (Some ?k) (update_usage (clock (Suc (0 + j))) p ?k (set_cursor m p ((i + j) mod length ks)))"
    by (rule scan_some [OF wf i j]) (use no av in simp_all)
  moreover from update_usage_selected [OF wf kin, of "(i + j) mod length ks" "clock (Suc j)"] N
  obtain m' where "update_usage (clock (Suc j)) p ?k (set_cursor m p ((i + j) mod length ks)) = Inr m'"
    "selected m p ?k (clock (Suc j)) ((i + j) mod length ks) m'"
    by auto
  ultimately show ?thesis using cfg ne
    by (simp add: get_next_api_def)
qed

lemma get_next_api_fallback:
  assumes wf: "wf_service m p ks" and i: "current_indices m p = Some i"
    and no: "\<forall>j<length ks. \<not> available (clock j) m p (ks ! ((i + j) mod length ks))"
  shows "\<exists>m'. get_next_api clock p m = Inr (Some (min_by (last_use m p) (hd ks) (tl ks)), m') \<and>
           selected m p (min_by (last_use m p) (hd ks) (tl ks)) (clock (length ks)) i m'"
proof -
  let ?k = "min_by (last_use m p) (hd ks) (tl ks)"
  from wf have cfg: "api_configs m p = Some ks" and ne: "ks \<noteq> []"
    by (auto simp: wf_service_def)
  from wf i have il: "i < length ks" by (auto dest: wf_service_cursorD)
  from wf_serviceD [OF wf] obtain lu where lu: "last_used m p = Some lu" by blast
  have kin: "?k \<in> set ks" using min_by_in [of "last_use m p" "hd ks" "tl ks"] ne by simp
  have "scan clock p ks (length ks) 0 m = Inr (None, set_cursor m p ((i + length ks) mod length ks))"
    by (rule scan_none [OF wf i]) (use no in simp)
  moreover have "set_cursor m p ((i + length ks) mod length ks) = m"
    using i il by (simp add: set_cursor_def map_upd_triv)
  ultimately have sc: "scan clock p ks (length ks) 0 m = Inr (None, m)" by simp
  have f: "(\<lambda>api. get_or lu api datetime_min) = last_use m p"
    using lu by (simp add: last_use_def last_used_of_def get_or_def fun_eq_iff)
  have pm: "py_min (last_use m p) ks = Inr ?k"
    using ne by (cases ks) (simp_all add: py_min_def)
  from update_usage_selected [OF wf kin il, of "clock (length ks)"]
  obtain m' where "update_usage (clock (length ks)) p ?k (set_cursor m p i) = Inr m'"
    "selected m p ?k (clock (length ks)) i m'" by blast
  moreover have "set_cursor m p i = m" using i by (simp add: set_cursor_def map_upd_triv)
  ultimately show ?thesis using cfg ne sc lu pm
    by (simp add: get_next_api_def f)
qed

lemma get_next_api_cases:
  assumes wf: "wf_service m p ks" and i: "current_indices m p = Some i"
  obtains (first) j m' where "j < length ks"
      "\<forall>j'<j. \<not> available (clock j') m p (ks ! ((i + j') mod length ks))"
      "available (clock j) m p (ks ! ((i + j) mod length ks))"
      "get_next_api clock p m = Inr (Some (ks ! ((i + j) mod length ks)), m')"
      "selected m p (ks ! ((i + j) mod length ks)) (clock (Suc j)) ((i + j) mod length ks) m'"
  | (fallback) m' where
      "\<forall>j<length ks. \<not> available (clock j) m p (ks ! ((i + j) mod length ks))"
      "get_next_api clock p m = Inr (Some (min_by (last_use m p) (hd ks) (tl ks)), m')"
      "selected m p (min_by (last_use m p) (hd ks) (tl ks)) (clock (length ks)) i m'"
proof (cases "\<exists>j<length ks. available (clock j) m p (ks ! ((i + j) mod length ks))")
  case True
  define P where "P j \<longleftrightarrow> j < length ks \<and> available (clock j) m p (ks ! ((i + j) mod length ks))" for j
  from True have "\<exists>j. P j" by (auto simp: P_def)
  then have l: "P (LEAST j. P j)" by (rule LeastI_ex)
  have nl: "\<And>j'. j' < (LEAST j. P j) \<Longrightarrow> \<not> P j'" by (rule not_less_Least)
  let ?j = "LEAST j. P j"
  from l have jl: "?j < length ks" and av: "available (clock ?j) m p (ks ! ((i + ?j) mod length ks))"
    by (simp_all add: P_def)
  have no: "\<forall>j'<?j. \<not> available (clock j') m p (ks ! ((i + j') mod length ks))"
    using nl jl by (auto simp: P_def)
  from get_next_api_first [OF wf i jl no av] first [OF jl no av] show thesis by blast
next
  case False
  then have no: "\<forall>j<length ks. \<not> available (clock j) m p (ks ! ((i + j) mod length ks))" by blast
  from get_next_api_fallback [OF wf i no] fallback [OF no] show thesis by blast
qed

lemma available_iff:
  assumes "wf_service m p ks"
  shows "available now m p k \<longleftrightarrow>
     \<not> now - last_use m p k < seconds (case cooldown_of m p k of None \<Rightarrow> 0 | Some c \<Rightarrow> c) \<and>
     \<not> (case error_count_of m p k of None \<Rightarrow> 0 | Some e \<Rightarrow> e) > 5"
proof -
  from wf_serviceD [OF assms] obtain ec lu cp where
    "error_counts m p = Some ec" "last_used m p = Some lu" "cooldown_periods m p = Some cp"
    by blast
  then show ?thesis
    by (simp add: available_def is_api_available_def last_use_def last_used_of_def
        cooldown_of_def error_count_of_def get_or_def)
qed

lemma get_next_api_selected:
  assumes "wf_service m p ks"
  shows "\<exists>k now j m'. get_next_api clock p m = Inr (Some k, m') \<and> k \<in> set ks \<and> j < length ks \<and>
           selected m p k now j m'"
proof -
  from wf_serviceD [OF assms] obtain i where i: "current_indices m p = Some i" "i < length ks"
    and ne: "ks \<noteq> []" by blast
  from assms i(1) show ?thesis
  proof (cases rule: get_next_api_cases [where clock = clock])
    case (first j m')
    moreover have "ks ! ((i + j) mod length ks) \<in> set ks" using ne by simp
    moreover have "(i + j) mod length ks < length ks" using ne by simp
    ultimately show ?thesis by blast
  next
    case (fallback m')
    moreover have "min_by (last_use m p) (hd ks) (tl ks) \<in> set ks"
      using min_by_in [of "last_use m p" "hd ks" "tl ks"] ne by simp
    ultimately show ?thesis using i(2) by blast
  qed
qed

lemma get_next_api_unconfigured:
  "api_configs m p = None \<or> api_configs m p = Some [] \<Longrightarrow> get_next_api clock p m = Inr (None, m)"
  by (auto simp: get_next_api_def)

lemma report_error_ok:
  assumes "wf_service m p ks" "c \<in> set ks"
  shows "\<exists>m' n. report_error p c t m = Inr m' \<and> error_count_of m p c = Some n \<and>
    error_count_of m' p c = Some (n + 1) \<and>
    cooldown_of m' p c = Some (if t = ''rate_limit'' then 300 else if t = ''quota_exceeded'' then 3600 else 60) \<and>
    last_used m' = last_used m \<and> api_configs m' = api_configs m \<and> current_indices m' = current_indices m \<and>
    (\<forall>q k. q \<noteq> p \<or> k \<noteq> c \<longrightarrow> error_count_of m' q k = error_count_of m q k \<and> cooldown_of m' q k = cooldown_of m q k) \<and>
    (\<forall>q. q \<noteq> p \<longrightarrow> error_counts m' q = error_counts m q \<and> cooldown_periods m' q = cooldown_periods m q)"
proof -
  from wf_serviceD [OF assms(1)] obtain ec lu cp where d: "error_counts m p = Some ec" "cooldown_periods m p = Some cp"
    and all: "\<forall>k\<in>set ks. ec k \<noteq> None \<and> lu k \<noteq> None \<and> cp k \<noteq> None"
    by blast
  from all assms(2) obtain n where n: "ec c = Some n" by auto
  let ?v = "if t = ''rate_limit'' then 300 else if t = ''quota_exceeded'' then 3600 else (60::int)"
  let ?m' = "m\<lparr>error_counts := (error_counts m)(p \<mapsto> ec(c \<mapsto> n + 1)),
                cooldown_periods := (cooldown_periods m)(p \<mapsto> cp(c \<mapsto> ?v))\<rparr>"
  have "report_error p c t m = Inr ?m'"
    using d n by (simp add: report_error_def)
  moreover have "error_count_of m p c = Some n" using d n by (simp add: error_count_of_def)
  moreover have "\<forall>q k. q \<noteq> p \<or> k \<noteq> c \<longrightarrow> error_count_of ?m' q k = error_count_of m q k \<and> cooldown_of ?m' q k = cooldown_of m q k"
    using d by (auto simp: error_count_of_def cooldown_of_def)
  ultimately show ?thesis
    by (intro exI [of _ ?m'] exI [of _ n]) (simp add: error_count_of_def cooldown_of_def)
qed

lemma wf_service_same_last_used:
  assumes "wf_service m p ks" "api_configs m' = api_configs m" "current_indices m' = current_indices m"
    "last_used m' = last_used m"
    "\<forall>k\<in>set ks. error_count_of m' p k \<noteq> None \<and> cooldown_of m' p k \<noteq> None"
  shows "wf_service m' p ks"
  using assms by (simp add: wf_service_def list_all_iff last_used_of_def)

lemma report_error_wf:
  assumes "wf_service m p ks" "c \<in> set ks" "report_error p c t m = Inr m'"
  shows "wf_service m' p ks"
proof -
  from report_error_ok [OF assms(1,2), of t] assms(3) obtain n where
    e: "error_count_of m' p c = Some (n + 1)"
    and cd: "cooldown_of m' p c = Some (if t = ''rate_limit'' then 300 else if t = ''quota_exceeded'' then 3600 else 60)"
    and same: "last_used m' = last_used m" "api_configs m' = api_configs m" "current_indices m' = current_indices m"
    and fr: "\<forall>q k. q \<noteq> p \<or> k \<noteq> c \<longrightarrow> error_count_of m' q k = error_count_of m q k \<and> cooldown_of m' q k = cooldown_of m q k"
    by auto
  have "error_count_of m' p k \<noteq> None \<and> cooldown_of m' p k \<noteq> None" if "k \<in> set ks" for k
  proof (cases "k = c")
    case True
    with e cd show ?thesis by simp
  next
    case False
    with fr have "error_count_of m' p k = error_count_of m p k" "cooldown_of m' p k = cooldown_of m p k"
      by simp_all
    with assms(1) that show ?thesis by (simp add: wf_service_def list_all_iff)
  qed
  with assms(1) same show ?thesis by (intro wf_service_same_last_used [of m p ks m']) simp_all
qed

lemma wf_demo: "wf_service demo ''exa'' [''k1'', ''k2'']"
  by (simp add: wf_service_def demo_def init_manager_def error_count_of_def last_used_of_def cooldown_of_def)

lemmas demo_eval = demo_def init_manager_def is_api_available_def
      update_usage_def get_or_def seconds_def demo_boot_def frozen_clock_def datetime_min_def Let_def
      report_error_def reported_def value_of_def manager_of_def get_next_api_def
      error_count_of_def last_used_of_def cooldown_of_def py_min_def

lemma wf_demo_one_error: "wf_service demo_one_error ''exa'' [''k1'', ''k2'']"
  by (simp add: wf_service_def demo_one_error_def demo_eval)

lemma wf_demo_exhausted: "wf_service demo_exhausted ''exa'' [''k1'', ''k2'']"
  by (simp add: wf_service_def demo_exhausted_def demo_eval)

lemma wf_demo_selected: "wf_service demo_selected ''exa'' [''k1'', ''k2'']"
  by (simp add: wf_service_def demo_selected_def demo_eval)

lemma pool_position:
  assumes "d \<in> set ks" "i < length ks"
  shows "\<exists>j<length ks. ks ! ((i + j) mod length ks) = d"
proof -
  from assms(1) obtain q where q: "q < length ks" "ks ! q = d" by (auto simp: in_set_conv_nth)
  let ?N = "length ks"
  let ?j = "(q + ?N - i) mod ?N"
  have "(i + ?j) mod ?N = (i + (q + ?N - i)) mod ?N" by (simp add: mod_add_right_eq)
  also have "\<dots> = (q + ?N) mod ?N" using assms(2) by simp
  also have "\<dots> = q" using q(1) by simp
  finally have "ks ! ((i + ?j) mod ?N) = d" using q(2) by simp
  moreover have "?j < ?N" using q(1) by (intro mod_less_divisor) auto
  ultimately show ?thesis by blast
qed

lemma get_next_api_returns_available:
  assumes wf: "wf_service m p ks" and d: "d \<in> set ks"
    and other: "\<forall>j<length ks. available (clock j) m p d"
  shows "\<exists>k m' j. get_next_api clock p m = Inr (Some k, m') \<and> k \<in> set ks \<and> j < length ks \<and>
           available (clock j) m p k"
proof -
  from wf_serviceD [OF wf] obtain i where i: "current_indices m p = Some i" "i < length ks"
    and ne: "ks \<noteq> []" by blast
  from pool_position [OF d i(2)] obtain j0 where j0: "j0 < length ks" "ks ! ((i + j0) mod length ks) = d"
    by blast
  with other have ex: "available (clock j0) m p (ks ! ((i + j0) mod length ks))" by simp
  from wf i(1) show ?thesis
  proof (cases rule: get_next_api_cases [where clock = clock])
    case (first j m')
    moreover have "ks ! ((i + j) mod length ks) \<in> set ks" using ne by simp
    ultimately show ?thesis by blast
  next
    case (fallback m')
    with j0(1) ex show ?thesis by blast
  qed
qed

lemma select_at_cursor:
  assumes wf: "wf_service m p ks" and i: "current_indices m p = Some i"
    and av: "available (clock 0) m p (ks ! i)"
  shows "\<exists>m'. get_next_api clock p m = Inr (Some (ks ! i), m') \<and>
           selected m p (ks ! i) (clock 1) i m'"
proof -
  from wf i have il: "i < length ks" and N: "0 < length ks" by (auto dest: wf_service_cursorD)
  have "\<exists>m'. get_next_api clock p m = Inr (Some (ks ! ((i + 0) mod length ks)), m') \<and>
           selected m p (ks ! ((i + 0) mod length ks)) (clock (Suc 0)) ((i + 0) mod length ks) m'"
    by (rule get_next_api_first [OF wf i]) (use il N av in simp_all)
  with il show ?thesis by simp
qed

section \<open>Claims on the rotation manager\<close>

subsection \<open>C1: selection and the error counters\<close>

text \<open>
  C1 says that \<^verbatim>\<open>get_next_api\<close> never changes an error counter. It does:
  \<^verbatim>\<open>_update_usage\<close>, which it calls on the credential it hands out, sets the counter of
  that credential to 0. Counterexample to C1: in a pool of two credentials, \<open>k1\<close> has one
  reported error; the next selection returns \<open>k1\<close>, and its counter is 0 afterwards,
  not 1.
\<close>

theorem selection_resets_selected_only_counterexample:
  "error_count_of demo_one_error ''exa'' ''k1'' = Some 1 \<and>
   value_of (get_next_api (frozen_clock (seconds 7200)) ''exa'' demo_one_error) = Inr (Some ''k1'') \<and>
   error_count_of (manager_of (get_next_api (frozen_clock (seconds 7200)) ''exa'' demo_one_error))
     ''exa'' ''k1'' = Some 0"
  by (simp add: demo_one_error_def demo_eval)

text \<open>
  C1 as amended: for a service that is not configured (or has an empty pool) the call
  returns nothing and leaves the manager as it is; otherwise it returns a credential of
  the pool and raises nothing, the error counter of the returned credential is 0
  afterwards, and every other error counter and every other last-use time, of this and of
  every other service, is unchanged; the cooldown periods and the pools do not change, and
  among the cursors only the one of this service may move.
\<close>

theorem selection_resets_selected_only:
  assumes "pool_ok m p"
  shows "\<exists>r m'. get_next_api clock p m = Inr (r, m') \<and>
           (r = None \<longleftrightarrow> api_configs m p = None \<or> api_configs m p = Some []) \<and>
           (r = None \<longrightarrow> m' = m) \<and>
           (\<forall>k. r = Some k \<longrightarrow> error_count_of m' p k = Some 0 \<and> last_used_of m' p k \<noteq> None) \<and>
           (\<forall>q k. q \<noteq> p \<or> r \<noteq> Some k \<longrightarrow> error_count_of m' q k = error_count_of m q k) \<and>
           (\<forall>q k. q \<noteq> p \<or> r \<noteq> Some k \<longrightarrow> last_used_of m' q k = last_used_of m q k) \<and>
           (\<forall>q. q \<noteq> p \<longrightarrow> current_indices m' q = current_indices m q) \<and>
           cooldown_periods m' = cooldown_periods m \<and> api_configs m' = api_configs m"
proof (cases "api_configs m p = None \<or> api_configs m p = Some []")
  case True
  then have "get_next_api clock p m = Inr (None, m)" by (rule get_next_api_unconfigured)
  with True show ?thesis by simp
next
  case False
  with assms obtain ks where cfg: "api_configs m p = Some ks" and wf: "wf_service m p ks"
    by (auto simp: pool_ok_def split: option.splits)
  from get_next_api_selected [OF wf, of clock] obtain k now j m' where
    r: "get_next_api clock p m = Inr (Some k, m')" and s: "selected m p k now j m'" by blast
  from s have "error_count_of m' p k = Some 0" "last_used_of m' p k \<noteq> None"
    "\<forall>q k'. q \<noteq> p \<or> Some k \<noteq> Some k' \<longrightarrow> error_count_of m' q k' = error_count_of m q k'"
    "\<forall>q k'. q \<noteq> p \<or> Some k \<noteq> Some k' \<longrightarrow> last_used_of m' q k' = last_used_of m q k'"
    "\<forall>q. q \<noteq> p \<longrightarrow> current_indices m' q = current_indices m q"
    "cooldown_periods m' = cooldown_periods m" "api_configs m' = api_configs m"
    by (auto simp: selected_def)
  with r False show ?thesis by (intro exI [of _ "Some k"] exI [of _ m']) simp
qed

text \<open>Witness for C1 as amended: the pool of the counterexample.\<close>

theorem selection_resets_selected_only_witness:
  "pool_ok demo_one_error ''exa'' \<and>
   (\<exists>m'. get_next_api (frozen_clock (seconds 7200)) ''exa'' demo_one_error = Inr (Some ''k1'', m') \<and>
      error_count_of m' ''exa'' ''k1'' = Some 0 \<and>
      error_count_of m' ''exa'' ''k2'' = error_count_of demo_one_error ''exa'' ''k2'')"
proof -
  have ok: "pool_ok demo_one_error ''exa''"
    using wf_demo_one_error by (simp add: pool_ok_def wf_service_def)
  have v: "value_of (get_next_api (frozen_clock (seconds 7200)) ''exa'' demo_one_error) = Inr (Some ''k1'')"
    by (simp add: demo_one_error_def demo_eval)
  from selection_resets_selected_only [OF ok, of "frozen_clock (seconds 7200)"] obtain r m' where
    all: "get_next_api (frozen_clock (seconds 7200)) ''exa'' demo_one_error = Inr (r, m') \<and>
      (r = None \<longleftrightarrow> api_configs demo_one_error ''exa'' = None \<or> api_configs demo_one_error ''exa'' = Some []) \<and>
      (r = None \<longrightarrow> m' = demo_one_error) \<and>
      (\<forall>k. r = Some k \<longrightarrow> error_count_of m' ''exa'' k = Some 0 \<and> last_used_of m' ''exa'' k \<noteq> None) \<and>
      (\<forall>q k. q \<noteq> ''exa'' \<or> r \<noteq> Some k \<longrightarrow> error_count_of m' q k = error_count_of demo_one_error q k) \<and>
      (\<forall>q k. q \<noteq> ''exa'' \<or> r \<noteq> Some k \<longrightarrow> last_used_of m' q k = last_used_of demo_one_error q k) \<and>
      (\<forall>q. q \<noteq> ''exa'' \<longrightarrow> current_indices m' q = current_indices demo_one_error q) \<and>
      cooldown_periods m' = cooldown_periods demo_one_error \<and> api_configs m' = api_configs demo_one_error"
    by (elim exE)
  from all have r: "get_next_api (frozen_clock (seconds 7200)) ''exa'' demo_one_error = Inr (r, m')"
    by (elim conjE)
  from all have z: "\<forall>k. r = Some k \<longrightarrow> error_count_of m' ''exa'' k = Some 0 \<and> last_used_of m' ''exa'' k \<noteq> None"
    by (elim conjE)
  from all have f: "\<forall>q k. q \<noteq> ''exa'' \<or> r \<noteq> Some k \<longrightarrow> error_count_of m' q k = error_count_of demo_one_error q k"
    by (elim conjE)
  from r v have rk: "r = Some ''k1''" by (simp add: value_of_def)
  from z rk have "error_count_of m' ''exa'' ''k1'' = Some 0" by simp
  moreover from f [rule_format, of "''exa''" "''k2''"] rk
  have "error_count_of m' ''exa'' ''k2'' = error_count_of demo_one_error ''exa'' ''k2''" by simp
  ultimately show ?thesis using r rk ok by simp
qed

subsection \<open>C2: consecutive selections from a healthy pool\<close>

text \<open>
  C2 says that N consecutive selections from a pool of N healthy credentials outside their
  cooldown windows return each credential once, in pool order, the cursor moving by one on
  every selection. Counterexample to C2: in the freshly initialised pool of two credentials
  both pass the availability check, and two consecutive calls, one second apart, both
  return \<open>k1\<close> and leave the cursor at 0. The loop of \<^verbatim>\<open>get_next_api\<close> returns before
  the statement that advances the cursor.
\<close>

theorem cursor_stays_on_available_counterexample:
  "is_api_available (seconds 7200) ''exa'' ''k1'' demo = Inr True \<and>
   is_api_available (seconds 7200) ''exa'' ''k2'' demo = Inr True \<and>
   value_of (consecutive_selects demo_clocks ''exa'' (length [''k1'', ''k2'']) 0 demo)
     = Inr [Some ''k1'', Some ''k1''] \<and>
   current_indices (manager_of (consecutive_selects demo_clocks ''exa'' (length [''k1'', ''k2'']) 0 demo))
     ''exa'' = Some 0"
  by (simp add: demo_clocks_def demo_eval)

text \<open>
  C2 as amended: when the credential under the rotation cursor is healthy (at most 5
  errors) and carries no cooldown period, as every credential of a fresh or reset pool
  does, then any number of consecutive selections whose clock readings do not run
  backwards return that same credential every time and leave the cursor where it was.
\<close>

theorem cursor_stays_on_available:
  assumes wf: "wf_service m p ks" and i: "current_indices m p = Some i"
    and cd: "cooldown_of m p (ks ! i) = Some 0"
    and ec: "error_count_of m p (ks ! i) = Some e" "e \<le> 5"
    and lu: "last_use m p (ks ! i) \<le> clocks c 0"
    and mono: "\<forall>c'. clocks c' 1 \<le> clocks (Suc c') 0"
  shows "\<exists>m'. consecutive_selects clocks p n c m = Inr (replicate n (Some (ks ! i)), m') \<and>
           current_indices m' p = Some i"
  using wf i cd ec lu
proof (induction n arbitrary: m c e)
  case 0
  then show ?case by simp
next
  case (Suc n)
  let ?k = "ks ! i"
  have "available (clocks c 0) m p ?k"
    using Suc.prems by (simp add: available_iff [OF Suc.prems(1)] seconds_def)
  from select_at_cursor [where clock = "clocks c", OF Suc.prems(1,2) this] obtain m1 where
    g: "get_next_api (clocks c) p m = Inr (Some ?k, m1)" and s: "selected m p ?k (clocks c 1) i m1"
    by blast
  from Suc.prems(1,2) have il: "i < length ks" by (auto dest: wf_service_cursorD)
  have wf1: "wf_service m1 p ks" using s Suc.prems(1) il by (rule selected_wf)
  have i1: "current_indices m1 p = Some i" using s by (simp add: selected_def)
  have cd1: "cooldown_of m1 p ?k = Some 0" using s Suc.prems(3) by (simp add: selected_def cooldown_of_def)
  have ec1: "error_count_of m1 p ?k = Some 0" using s by (simp add: selected_def)
  have "last_use m1 p ?k = clocks c 1" using s by (simp add: selected_def last_use_def)
  with mono have lu1: "last_use m1 p ?k \<le> clocks (Suc c) 0" by simp
  from Suc.IH [OF wf1 i1 cd1 ec1 _ lu1] obtain m' where
    "consecutive_selects clocks p n (Suc c) m1 = Inr (replicate n (Some ?k), m')"
    "current_indices m' p = Some i"
    by auto
  with g show ?case by simp
qed

text \<open>Witness for C2 as amended: two calls on the fresh pool.\<close>

theorem cursor_stays_on_available_witness:
  "wf_service demo ''exa'' [''k1'', ''k2''] \<and> current_indices demo ''exa'' = Some 0 \<and>
   cooldown_of demo ''exa'' ''k1'' = Some 0 \<and> error_count_of demo ''exa'' ''k1'' = Some 0 \<and>
   last_use demo ''exa'' ''k1'' \<le> demo_clocks 0 0 \<and>
   (\<exists>m'. consecutive_selects demo_clocks ''exa'' 2 0 demo = Inr ([Some ''k1'', Some ''k1''], m') \<and>
      current_indices m' ''exa'' = Some 0)"
proof -
  have i: "current_indices demo ''exa'' = Some 0" by (simp add: demo_eval)
  have cd: "cooldown_of demo ''exa'' ([''k1'', ''k2''] ! 0) = Some 0" by (simp add: demo_eval)
  have ec: "error_count_of demo ''exa'' ([''k1'', ''k2''] ! 0) = Some 0" "(0::int) \<le> 5"
    by (simp_all add: demo_eval)
  have lu: "last_use demo ''exa'' ([''k1'', ''k2''] ! 0) \<le> demo_clocks 0 0"
    by (simp add: last_use_def demo_clocks_def demo_eval)
  have mono: "\<forall>c'. demo_clocks c' 1 \<le> demo_clocks (Suc c') 0"
    by (simp add: demo_clocks_def seconds_def)
  from cursor_stays_on_available [OF wf_demo i cd ec lu mono, of 2] obtain m' where
    "consecutive_selects demo_clocks ''exa'' 2 0 demo = Inr (replicate 2 (Some ([''k1'', ''k2''] ! 0)), m')"
    "current_indices m' ''exa'' = Some 0"
    by blast
  moreover have "replicate 2 (Some ([''k1'', ''k2''] ! 0)) = [Some ''k1'', Some ''k1'']"
    by (simp add: numeral_2_eq_2)
  ultimately show ?thesis using wf_demo i cd ec lu by simp
qed

subsection \<open>C4: a credential over quota\<close>

text \<open>
  C4 says that a credential reported with \<^verbatim>\<open>quota_exceeded\<close> at time t is not returned
  before t + 3600 s while another credential is healthy. \<^verbatim>\<open>report_error\<close> stores the period
  only, and \<^verbatim>\<open>_is_api_available\<close> counts it from the credential's last selection.
  Counterexample to C4: \<open>k1\<close> is selected at 7200 s and its failure is reported at 7260 s;
  at 10830 s, which is earlier than 7260 s + 3600 s, \<open>k2\<close> is healthy and outside any
  cooldown, and the selection returns \<open>k1\<close>.
\<close>

theorem quota_exceeded_not_selected_counterexample:
  "value_of (get_next_api (frozen_clock (seconds 7200)) ''exa'' demo) = Inr (Some ''k1'') \<and>
   is_api_available (seconds 10830) ''exa'' ''k2'' demo_quota = Inr True \<and>
   seconds 10830 < seconds 7260 + seconds 3600 \<and>
   value_of (get_next_api (frozen_clock (seconds 10830)) ''exa'' demo_quota) = Inr (Some ''k1'')"
  by (simp add: demo_quota_def demo_selected_def demo_eval)

text \<open>
  C4 as amended: after \<^verbatim>\<open>report_error(p, c, "quota_exceeded")\<close>, which raises nothing, a
  selection for p whose clock readings are all earlier than the last selection time of c
  plus 3600 s returns a credential of the pool other than c, provided another credential
  of the pool passes the availability check at those readings.
\<close>

theorem quota_exceeded_not_selected:
  assumes wf: "wf_service m p ks" and c: "c \<in> set ks" and d: "d \<in> set ks"
    and early: "\<forall>j<length ks. clock j < last_use m p c + seconds 3600"
    and other: "\<forall>j<length ks.
                  available (clock j) (reported (report_error p c ''quota_exceeded'' m)) p d"
  shows "report_error p c ''quota_exceeded'' m = Inr (reported (report_error p c ''quota_exceeded'' m)) \<and>
         (\<exists>k m2. get_next_api clock p (reported (report_error p c ''quota_exceeded'' m)) = Inr (Some k, m2)
            \<and> k \<in> set ks \<and> k \<noteq> c)"
proof -
  let ?m1 = "reported (report_error p c ''quota_exceeded'' m)"
  from report_error_ok [OF wf c, of "''quota_exceeded''"] obtain m' n where
    r: "report_error p c ''quota_exceeded'' m = Inr m'"
    and cd: "cooldown_of m' p c = Some 3600" and lu: "last_used m' = last_used m"
    by auto
  from r have m1: "?m1 = m'" by (simp add: reported_def)
  have wf1: "wf_service m' p ks" using wf c r by (rule report_error_wf)
  have lu1: "last_use m' p c = last_use m p c"
    using lu by (simp add: last_use_def last_used_of_def)
  have blocked: "\<not> available (clock j) m' p c" if "j < length ks" for j
  proof -
    from early that have "clock j - last_use m p c < seconds 3600" by auto
    with cd lu1 show ?thesis by (simp add: available_iff [OF wf1])
  qed
  from other have other': "\<forall>j<length ks. available (clock j) m' p d" by (simp add: m1)
  from get_next_api_returns_available [OF wf1 d other'] obtain k m2 j where
    g: "get_next_api clock p m' = Inr (Some k, m2)" and k: "k \<in> set ks"
    and j: "j < length ks" "available (clock j) m' p k"
    by blast
  from j blocked have "k \<noteq> c" by blast
  with g k r m1 show ?thesis by auto
qed

text \<open>Witness for C4 as amended: one second before the window of \<open>k1\<close> ends.\<close>

theorem quota_exceeded_not_selected_witness:
  "wf_service demo_selected ''exa'' [''k1'', ''k2''] \<and>
   last_use demo_selected ''exa'' ''k1'' = seconds 7200 \<and>
   is_api_available (seconds 10799) ''exa'' ''k2'' demo_quota = Inr True \<and>
   (\<exists>m2. get_next_api (frozen_clock (seconds 10799)) ''exa'' demo_quota = Inr (Some ''k2'', m2))"
proof -
  have c: "''k1'' \<in> set [''k1'', ''k2'']" and d: "''k2'' \<in> set [''k1'', ''k2'']" by simp_all
  have l0: "last_use demo_selected ''exa'' ''k1'' = seconds 7200"
    by (simp add: last_use_def demo_selected_def demo_eval)
  have a2: "is_api_available (seconds 10799) ''exa'' ''k2'' demo_quota = Inr True"
    by (simp add: demo_quota_def demo_selected_def demo_eval)
  have early: "\<forall>j<length [''k1'', ''k2''].
      frozen_clock (seconds 10799) j < last_use demo_selected ''exa'' ''k1'' + seconds 3600"
    using l0 by (simp add: frozen_clock_def seconds_def)
  have other: "\<forall>j<length [''k1'', ''k2''].
      available (frozen_clock (seconds 10799) j)
        (reported (report_error ''exa'' ''k1'' ''quota_exceeded'' demo_selected)) ''exa'' ''k2''"
    using a2 by (simp add: available_def frozen_clock_def demo_quota_def)
  from quota_exceeded_not_selected [OF wf_demo_selected c d early other] obtain k m2 where
    g: "get_next_api (frozen_clock (seconds 10799)) ''exa'' demo_quota = Inr (Some k, m2)"
    and k: "k \<in> set [''k1'', ''k2'']" "k \<noteq> ''k1''"
    unfolding demo_quota_def by blast
  from k have "k = ''k2''" by simp
  with g wf_demo_selected l0 a2 show ?thesis by simp
qed

subsection \<open>C5: recording a failure\<close>

text \<open>
  C5 says that \<^verbatim>\<open>report_error\<close> makes the cooldown window end at now + 300 s, now + 3600 s
  or now + 60 s. The function reads no clock: it stores the period, and the window is
  counted from the last selection of the credential. Counterexample to C5: \<open>k1\<close> is
  selected at 7200 s and reported as rate limited at 7210 s; at 7505 s, earlier than
  7210 s + 300 s, it passes the availability check again.
\<close>

theorem report_error_effect_counterexample:
  "value_of (get_next_api (frozen_clock (seconds 7200)) ''exa'' demo) = Inr (Some ''k1'') \<and>
   last_used_of demo_rate_limited ''exa'' ''k1'' = Some (seconds 7200) \<and>
   cooldown_of demo_rate_limited ''exa'' ''k1'' = Some 300 \<and>
   seconds 7505 < seconds 7210 + seconds 300 \<and>
   is_api_available (seconds 7505) ''exa'' ''k1'' demo_rate_limited = Inr True"
  by (simp add: demo_rate_limited_def demo_selected_def demo_eval)

text \<open>
  C5 as amended: for a credential c of the pool of p, \<^verbatim>\<open>report_error\<close> raises nothing,
  adds exactly 1 to the error counter of c and sets its cooldown period to 300 s for
  \<^verbatim>\<open>rate_limit\<close>, 3600 s for \<^verbatim>\<open>quota_exceeded\<close> and 60 s for any other class; the window
  this opens ends that period after the last selection of c (c passes the availability
  check again exactly from then on, while its counter is at most 5). Last-use times,
  pools and cursors do not change, nor does any counter or period of another credential.
  A later failure adds 1 again and overwrites the period with that of its own class.
\<close>

theorem report_error_effect:
  assumes wf: "wf_service m p ks" and c: "c \<in> set ks"
  shows "\<exists>m' n. report_error p c error_type m = Inr m' \<and> error_count_of m p c = Some n \<and>
     error_count_of m' p c = Some (n + 1) \<and>
     cooldown_of m' p c = Some (if error_type = ''rate_limit'' then 300
                                else if error_type = ''quota_exceeded'' then 3600 else 60) \<and>
     (\<forall>now. available now m' p c \<longleftrightarrow>
        last_use m p c + seconds (if error_type = ''rate_limit'' then 300
                                  else if error_type = ''quota_exceeded'' then 3600 else 60) \<le> now
        \<and> n + 1 \<le> 5) \<and>
     last_used m' = last_used m \<and> api_configs m' = api_configs m \<and>
     current_indices m' = current_indices m \<and>
     (\<forall>q k. q \<noteq> p \<or> k \<noteq> c \<longrightarrow>
        error_count_of m' q k = error_count_of m q k \<and> cooldown_of m' q k = cooldown_of m q k) \<and>
     (\<exists>m''. report_error p c later_type m' = Inr m'' \<and> error_count_of m'' p c = Some (n + 2) \<and>
        cooldown_of m'' p c = Some (if later_type = ''rate_limit'' then 300
                                    else if later_type = ''quota_exceeded'' then 3600 else 60))"
proof -
  let ?cd = "\<lambda>t. if t = ''rate_limit'' then 300 else if t = ''quota_exceeded'' then 3600 else (60::int)"
  from report_error_ok [OF wf c, of error_type] obtain m' n where
    r: "report_error p c error_type m = Inr m'" and n: "error_count_of m p c = Some n"
    and n': "error_count_of m' p c = Some (n + 1)"
    and cd: "cooldown_of m' p c = Some (?cd error_type)"
    and same: "last_used m' = last_used m" "api_configs m' = api_configs m"
      "current_indices m' = current_indices m"
    and fr: "\<forall>q k. q \<noteq> p \<or> k \<noteq> c \<longrightarrow>
        error_count_of m' q k = error_count_of m q k \<and> cooldown_of m' q k = cooldown_of m q k"
    by blast
  have wf': "wf_service m' p ks" using wf c r by (rule report_error_wf)
  have lu: "last_use m' p c = last_use m p c"
    using same(1) by (simp add: last_use_def last_used_of_def)
  have av: "\<forall>now. available now m' p c \<longleftrightarrow> last_use m p c + seconds (?cd error_type) \<le> now \<and> n + 1 \<le> 5"
    using n' cd lu by (auto simp: available_iff [OF wf'])
  from report_error_ok [OF wf' c, of later_type] n' obtain m'' where
    "report_error p c later_type m' = Inr m''" "error_count_of m'' p c = Some (n + 1 + 1)"
    "cooldown_of m'' p c = Some (?cd later_type)"
    by auto
  then have twice: "\<exists>m''. report_error p c later_type m' = Inr m'' \<and> error_count_of m'' p c = Some (n + 2) \<and>
        cooldown_of m'' p c = Some (?cd later_type)"
    by simp
  show ?thesis
    using r n n' cd av same fr twice by (intro exI [of _ m'] exI [of _ n]) blast
qed

text \<open>Witness for C5 as amended: \<open>k1\<close> selected at 7200 s, then reported as rate limited.\<close>

theorem report_error_effect_witness:
  "wf_service demo_selected ''exa'' [''k1'', ''k2''] \<and> ''k1'' \<in> set [''k1'', ''k2''] \<and>
   (\<exists>m'. report_error ''exa'' ''k1'' ''rate_limit'' demo_selected = Inr m' \<and>
      error_count_of demo_selected ''exa'' ''k1'' = Some 0 \<and>
      error_count_of m' ''exa'' ''k1'' = Some 1 \<and> cooldown_of m' ''exa'' ''k1'' = Some 300 \<and>
      available (seconds 7500) m' ''exa'' ''k1'' \<and>
      cooldown_of m' ''exa'' ''k2'' = cooldown_of demo_selected ''exa'' ''k2'')"
proof -
  have c: "''k1'' \<in> set [''k1'', ''k2'']" by simp
  have e0: "error_count_of demo_selected ''exa'' ''k1'' = Some 0"
    by (simp add: demo_selected_def demo_eval)
  have l0: "last_use demo_selected ''exa'' ''k1'' = seconds 7200"
    by (simp add: last_use_def demo_selected_def demo_eval)
  from report_error_effect [OF wf_demo_selected c, of "''rate_limit''" "''generic''"]
  obtain m' n where
    r: "report_error ''exa'' ''k1'' ''rate_limit'' demo_selected = Inr m'"
    and n: "error_count_of demo_selected ''exa'' ''k1'' = Some n"
    and n': "error_count_of m' ''exa'' ''k1'' = Some (n + 1)"
    and cd: "cooldown_of m' ''exa'' ''k1'' = Some 300"
    and av: "\<forall>now. available now m' ''exa'' ''k1'' \<longleftrightarrow>
               last_use demo_selected ''exa'' ''k1'' + seconds 300 \<le> now \<and> n + 1 \<le> 5"
    and fr: "\<forall>q k. q \<noteq> ''exa'' \<or> k \<noteq> ''k1'' \<longrightarrow>
        error_count_of m' q k = error_count_of demo_selected q k \<and>
        cooldown_of m' q k = cooldown_of demo_selected q k"
    by auto
  from n e0 have n0: "n = 0" by simp
  from av n0 l0 have "available (seconds 7500) m' ''exa'' ''k1''" by (simp add: seconds_def)
  moreover from fr have "cooldown_of m' ''exa'' ''k2'' = cooldown_of demo_selected ''exa'' ''k2''"
    by simp
  ultimately show ?thesis using wf_demo_selected r e0 n' cd n0 by simp
qed

subsection \<open>C6: the fallback when no credential is available\<close>

text \<open>
  C6: when no credential of a (well-formed, hence non-empty) pool passes the availability
  check at any reading of the scan, \<^verbatim>\<open>get_next_api\<close> raises nothing and returns one
  credential of the pool, the one that Python's \<^verbatim>\<open>min\<close> picks by last-use time: no
  credential of the pool has an older last-use time. Its last-use time becomes the
  reading taken after the scan.
\<close>

theorem all_unavailable_fallback:
  assumes wf: "wf_service m p ks"
    and no: "\<forall>j<length ks. \<forall>k\<in>set ks. \<not> available (clock j) m p k"
  shows "\<exists>k m'. get_next_api clock p m = Inr (Some k, m') \<and> k \<in> set ks \<and>
           k = min_by (last_use m p) (hd ks) (tl ks) \<and>
           (\<forall>k'\<in>set ks. last_use m p k \<le> last_use m p k') \<and>
           last_used_of m' p k = Some (clock (length ks))"
proof -
  from wf_serviceD [OF wf] obtain i where i: "current_indices m p = Some i" and ne: "ks \<noteq> []"
    by blast
  let ?k = "min_by (last_use m p) (hd ks) (tl ks)"
  have pos: "\<forall>j<length ks. \<not> available (clock j) m p (ks ! ((i + j) mod length ks))"
    using no ne by simp
  from get_next_api_fallback [OF wf i pos] obtain m' where
    r: "get_next_api clock p m = Inr (Some ?k, m')" and s: "selected m p ?k (clock (length ks)) i m'"
    by blast
  have kin: "?k \<in> set ks" using min_by_in [of "last_use m p" "hd ks" "tl ks"] ne by simp
  have least: "\<forall>k'\<in>set ks. last_use m p ?k \<le> last_use m p k'"
  proof
    fix k' assume "k' \<in> set ks"
    with ne have "k' \<in> set (hd ks # tl ks)" by simp
    then show "last_use m p ?k \<le> last_use m p k'" by (rule min_by_least)
  qed
  from s have "last_used_of m' p ?k = Some (clock (length ks))" by (simp add: selected_def)
  with r kin least show ?thesis by blast
qed

text \<open>
  Witness for C6: both credentials are over quota with their windows still open at
  7000 s; \<open>k2\<close>, last used 100 s before \<open>k1\<close>, is returned.
\<close>

theorem all_unavailable_fallback_witness:
  "wf_service demo_exhausted ''exa'' [''k1'', ''k2''] \<and>
   is_api_available (seconds 7000) ''exa'' ''k1'' demo_exhausted = Inr False \<and>
   is_api_available (seconds 7000) ''exa'' ''k2'' demo_exhausted = Inr False \<and>
   last_used_of demo_exhausted ''exa'' ''k1'' = Some (seconds 3600) \<and>
   last_used_of demo_exhausted ''exa'' ''k2'' = Some (seconds 3500) \<and>
   (\<exists>m'. get_next_api (frozen_clock (seconds 7000)) ''exa'' demo_exhausted = Inr (Some ''k2'', m'))"
proof -
  have a1: "is_api_available (seconds 7000) ''exa'' ''k1'' demo_exhausted = Inr False"
    by (simp add: demo_exhausted_def demo_eval)
  have a2: "is_api_available (seconds 7000) ''exa'' ''k2'' demo_exhausted = Inr False"
    by (simp add: demo_exhausted_def demo_eval)
  have l1: "last_used_of demo_exhausted ''exa'' ''k1'' = Some (seconds 3600)"
    by (simp add: demo_exhausted_def demo_eval)
  have l2: "last_used_of demo_exhausted ''exa'' ''k2'' = Some (seconds 3500)"
    by (simp add: demo_exhausted_def demo_eval)
  have no: "\<forall>j<length [''k1'', ''k2'']. \<forall>k\<in>set [''k1'', ''k2''].
              \<not> available (frozen_clock (seconds 7000) j) demo_exhausted ''exa'' k"
    using a1 a2 by (simp add: available_def frozen_clock_def)
  from all_unavailable_fallback [OF wf_demo_exhausted no] obtain k m' where
    r: "get_next_api (frozen_clock (seconds 7000)) ''exa'' demo_exhausted = Inr (Some k, m')"
    and k: "k = min_by (last_use demo_exhausted ''exa'') (hd [''k1'', ''k2'']) (tl [''k1'', ''k2''])"
    by blast
  from k l1 l2 have "k = ''k2''" by (simp add: last_use_def seconds_def)
  with r wf_demo_exhausted a1 a2 l1 l2 show ?thesis by simp
qed

section \<open>Lemmas on the orchestrator\<close>

lemma is_api_available_agree:
  "agree_on p m m2 \<Longrightarrow> is_api_available now p k m = is_api_available now p k m2"
  by (simp add: agree_on_def is_api_available_def split: option.splits)

lemma update_usage_agree:
  assumes "agree_on p m m2"
  shows "(\<exists>e a a2. update_usage now p k m = Inl (e, a) \<and> update_usage now p k m2 = Inl (e, a2) \<and> agree_on p a a2)
       \<or> (\<exists>a a2. update_usage now p k m = Inr a \<and> update_usage now p k m2 = Inr a2 \<and> agree_on p a a2)"
  using assms
  by (auto simp: agree_on_def update_usage_def Let_def split: option.splits)

lemma res_agree_simps [simp]:
  "res_agree p (Inl (e, a)) (Inl (e2, a2)) \<longleftrightarrow> e = e2 \<and> agree_on p a a2"
  "res_agree p (Inr (x, a)) (Inr (x2, a2)) \<longleftrightarrow> x = x2 \<and> agree_on p a a2"
  "\<not> res_agree p (Inl (e, a)) (Inr (x2, a2))"
  "\<not> res_agree p (Inr (x, a)) (Inl (e2, a2))"
  by (simp_all add: res_agree_def value_of_def manager_of_def)

lemma agree_on_cursor:
  "agree_on p m m2 \<Longrightarrow>
   agree_on p (m\<lparr>current_indices := (current_indices m)(p \<mapsto> j)\<rparr>)
              (m2\<lparr>current_indices := (current_indices m2)(p \<mapsto> j)\<rparr>)"
  by (simp add: agree_on_def)

lemma scan_agree:
  "agree_on p m m2 \<Longrightarrow> res_agree p (scan clock p ks n t m) (scan clock p ks n t m2)"
proof (induction n arbitrary: m m2 t)
  case 0
  then show ?case by simp
next
  case (Suc n)
  from Suc.prems have ci: "current_indices m p = current_indices m2 p" by (simp add: agree_on_def)
  show ?case
  proof (cases "current_indices m p")
    case None
    with ci Suc.prems show ?thesis by simp
  next
    case (Some i)
    show ?thesis
    proof (cases "i \<ge> length ks")
      case True
      with Some ci Suc.prems show ?thesis by simp
    next
      case False
      have av: "is_api_available (clock t) p (ks ! i) m = is_api_available (clock t) p (ks ! i) m2"
        using Suc.prems by (rule is_api_available_agree)
      show ?thesis
      proof (cases "is_api_available (clock t) p (ks ! i) m2")
        case (Inl e)
        with av Some ci False Suc.prems show ?thesis by simp
      next
        case (Inr b)
        show ?thesis
        proof (cases b)
          case True
          from update_usage_agree [OF Suc.prems, of "clock (Suc t)" "ks ! i"]
          show ?thesis using av Inr True Some ci False by (auto simp: Let_def)
        next
          case b: False
          have "res_agree p
             (scan clock p ks n (Suc t) (m\<lparr>current_indices := (current_indices m)(p \<mapsto> (i + 1) mod length ks)\<rparr>))
             (scan clock p ks n (Suc t) (m2\<lparr>current_indices := (current_indices m2)(p \<mapsto> (i + 1) mod length ks)\<rparr>))"
            by (rule Suc.IH) (rule agree_on_cursor [OF Suc.prems])
          then show ?thesis using av Inr b Some ci False by (simp add: Let_def)
        qed
      qed
    qed
  qed
qed

lemma get_next_api_agree:
  assumes "agree_on p m m2"
  shows "res_agree p (get_next_api clock p m) (get_next_api clock p m2)"
proof (cases "api_configs m p")
  case None
  with assms show ?thesis by (simp add: get_next_api_def agree_on_def)
next
  case (Some ks)
  with assms have cfg2: "api_configs m2 p = Some ks" by (simp add: agree_on_def)
  show ?thesis
  proof (cases "ks = []")
    case True
    with Some cfg2 assms show ?thesis by (simp add: get_next_api_def)
  next
    case False
    have sc: "res_agree p (scan clock p ks (length ks) 0 m) (scan clock p ks (length ks) 0 m2)"
      using assms by (rule scan_agree)
    show ?thesis
    proof (cases "scan clock p ks (length ks) 0 m")
      case (Inl x)
      with sc obtain e a a2 where "x = (e, a)" "scan clock p ks (length ks) 0 m2 = Inl (e, a2)" "agree_on p a a2"
        by (cases x; cases "scan clock p ks (length ks) 0 m2") auto
      with Inl Some cfg2 False show ?thesis by (simp add: get_next_api_def)
    next
      case (Inr y)
      with sc obtain r a a2 where y: "y = (r, a)" "scan clock p ks (length ks) 0 m2 = Inr (r, a2)" "agree_on p a a2"
        by (cases y; cases "scan clock p ks (length ks) 0 m2") auto
      show ?thesis
      proof (cases r)
        case (Some api)
        with Inr y \<open>api_configs m p = Some ks\<close> cfg2 False show ?thesis by (simp add: get_next_api_def)
      next
        case None
        from y(3) have lu: "last_used a p = last_used a2 p" by (simp add: agree_on_def)
        show ?thesis
        proof (cases "last_used a p")
          case N: None
          with lu Inr y None \<open>api_configs m p = Some ks\<close> cfg2 False show ?thesis
            by (simp add: get_next_api_def)
        next
          case (Some lu')
          obtain best where b: "py_min (\<lambda>api. get_or lu' api datetime_min) ks = Inr best"
            using False by (cases ks) (auto simp: py_min_def)
          from update_usage_agree [OF y(3), of "clock (length ks)" best]
          show ?thesis using Some lu Inr y None \<open>api_configs m p = Some ks\<close> cfg2 False b
            by (auto simp: get_next_api_def)
        qed
      qed
    qed
  qed
qed

lemma key_for_agree: "agree_on p m m2 \<Longrightarrow> key_for w p m = key_for w p m2"
  using get_next_api_agree [of p m m2 "now_for w p"] by (simp add: key_for_def res_agree_def)

lemma agree_on_refl [simp]: "agree_on q m m"
  by (simp add: agree_on_def)

lemma agree_on_trans: "agree_on q m m1 \<Longrightarrow> agree_on q m1 m2 \<Longrightarrow> agree_on q m m2"
  by (simp add: agree_on_def)

lemma wf_service_agree: "agree_on q m m1 \<Longrightarrow> wf_service m q ks \<Longrightarrow> wf_service m1 q ks"
  by (simp add: agree_on_def wf_service_def error_count_of_def last_used_of_def cooldown_of_def)

lemma pool_ok_agree: "agree_on q m m1 \<Longrightarrow> pool_ok m q \<Longrightarrow> pool_ok m1 q"
  using wf_service_agree [of q m m1] by (auto simp: pool_ok_def agree_on_def split: option.splits)

lemma cooldown_of_agree: "agree_on q m m1 \<Longrightarrow> cooldown_of m1 q k = cooldown_of m q k"
  by (simp add: agree_on_def cooldown_of_def)

lemma selected_agree: "selected m p k now j m' \<Longrightarrow> q \<noteq> p \<Longrightarrow> agree_on q m m'"
  by (simp add: selected_def agree_on_def)

lemma report_error_agree:
  assumes "wf_service m p ks" "c \<in> set ks" "report_error p c t m = Inr m'" "q \<noteq> p"
  shows "agree_on q m m'"
  using report_error_ok [OF assms(1,2), of t] assms(3,4) by (auto simp: agree_on_def)

lemma search_with_spec:
  assumes ok: "pool_ok m p"
  shows "\<exists>r m1. search_with p clock body m = Inr (r, m1) \<and>
           r = handed (value_of (get_next_api clock p m)) body \<and>
           (\<forall>q. q \<noteq> p \<longrightarrow> agree_on q m m1) \<and> pool_ok m1 p \<and>
           (\<forall>k e. value_of (get_next_api clock p m) = Inr (Some k) \<and> k \<noteq> [] \<and> body k = Raises e \<longrightarrow>
              cooldown_of m1 p k = Some (if classify e = ''rate_limit'' then 300 else 60))"
proof (cases "api_configs m p = None \<or> api_configs m p = Some []")
  case True
  then have g: "get_next_api clock p m = Inr (None, m)" by (rule get_next_api_unconfigured)
  with ok show ?thesis by (simp add: search_with_def handed_def value_of_def)
next
  case False
  with ok obtain ks where cfg: "api_configs m p = Some ks" and wf: "wf_service m p ks"
    by (auto simp: pool_ok_def split: option.splits)
  from get_next_api_selected [OF wf, of clock] obtain k now j m' where
    g: "get_next_api clock p m = Inr (Some k, m')" and kin: "k \<in> set ks" and j: "j < length ks"
    and s: "selected m p k now j m'" by blast
  have wf': "wf_service m' p ks" using s wf j by (rule selected_wf)
  have cfg': "api_configs m' p = Some ks" using wf' by (simp add: wf_service_def)
  have ok': "pool_ok m' p" using wf' cfg' by (simp add: pool_ok_def)
  have fr: "\<forall>q. q \<noteq> p \<longrightarrow> agree_on q m m'" using s by (auto intro: selected_agree)
  have v: "value_of (get_next_api clock p m) = Inr (Some k)" using g by (simp add: value_of_def)
  show ?thesis
  proof (cases "k = []")
    case True
    with g v ok' fr show ?thesis by (simp add: search_with_def handed_def)
  next
    case ne: False
    show ?thesis
    proof (cases "body k")
      case (Returns d)
      with g v ok' fr ne show ?thesis by (simp add: search_with_def handed_def)
    next
      case (Raises e)
      from report_error_ok [OF wf' kin, of "classify e"] obtain m2 where
        r: "report_error p k (classify e) m' = Inr m2"
        and cd: "cooldown_of m2 p k = Some (if classify e = ''rate_limit'' then 300
                   else if classify e = ''quota_exceeded'' then 3600 else 60)"
        by blast
      have cl: "classify e \<noteq> ''quota_exceeded''" by (simp add: classify_def)
      have wf2: "wf_service m2 p ks" using wf' kin r by (rule report_error_wf)
      then have ok2: "pool_ok m2 p" by (simp add: pool_ok_def wf_service_def)
      have fr2: "\<forall>q. q \<noteq> p \<longrightarrow> agree_on q m m2"
      proof (intro allI impI)
        fix q assume q: "q \<noteq> p"
        with fr have "agree_on q m m'" by simp
        moreover have "agree_on q m' m2" using wf' kin r q by (rule report_error_agree)
        ultimately show "agree_on q m m2" by (rule agree_on_trans)
      qed
      from cd cl have cd2: "cooldown_of m2 p k = Some (if classify e = ''rate_limit'' then 300 else 60)"
        by simp
      have "search_with p clock body m = Inr (None, m2)"
        using g ne Raises r by (simp add: search_with_def)
      moreover have "handed (value_of (get_next_api clock p m)) body = None"
        using v ne Raises by (simp add: handed_def)
      ultimately show ?thesis using v ok2 fr2 cd2 Raises by simp
    qed
  qed
qed

lemma py_lower_rate: "py_lower ''rate'' = ''rate''"
  by (simp add: py_lower_def lower_char_def)

lemma classify_rate: "sublist ''rate'' e \<Longrightarrow> classify e = ''rate_limit''"
proof -
  assume "sublist ''rate'' e"
  then have "sublist (map lower_char ''rate'') (map lower_char e)" by (rule map_mono_sublist)
  then have "sublist ''rate'' (py_lower e)" using py_lower_rate by (simp add: py_lower_def)
  then show ?thesis by (simp add: classify_def)
qed

lemma providers_distinct:
  "''exa'' \<noteq> ''tavily''" "''exa'' \<noteq> ''serpapi''" "''tavily'' \<noteq> ''serpapi''"
  "''tavily'' \<noteq> ''exa''" "''serpapi'' \<noteq> ''exa''" "''serpapi'' \<noteq> ''tavily''"
  by simp_all

lemma fan_out:
  assumes ok1: "pool_ok m ''exa''" and ok2: "pool_ok m ''tavily''" and ok3: "pool_ok m ''serpapi''"
  shows "\<exists>m3. execute_comprehensive_search w q pn m =
           (Consolidated q pn (report_time w) (websailor_result w)
              (attach ''serpapi'' (handed (key_for w ''serpapi'' m) (serpapi_body w q))
                 (attach ''tavily'' (handed (key_for w ''tavily'' m) (tavily_body w q))
                    (attach ''exa'' (handed (key_for w ''exa'' m) (exa_body w q)) Map.empty))), m3) \<and>
         (\<forall>p k e. p \<in> set providers \<and> key_for w p m = Inr (Some k) \<and> k \<noteq> [] \<and> body_of w q p k = Raises e \<longrightarrow>
            cooldown_of m3 p k = Some (if classify e = ''rate_limit'' then 300 else 60))"
proof -
  let ?cd = "\<lambda>e. Some (if classify e = ''rate_limit'' then 300 else (60::int))"
  from search_with_spec [OF ok1, of "now_for w ''exa''" "exa_body w q"] obtain r1 m1 where
    s1: "search_with_exa w q m = Inr (r1, m1)"
    and r1: "r1 = handed (key_for w ''exa'' m) (exa_body w q)"
    and f1: "\<forall>p. p \<noteq> ''exa'' \<longrightarrow> agree_on p m m1"
    and c1: "\<forall>k e. key_for w ''exa'' m = Inr (Some k) \<and> k \<noteq> [] \<and> exa_body w q k = Raises e \<longrightarrow>
               cooldown_of m1 ''exa'' k = ?cd e"
    unfolding search_with_exa_def key_for_def by blast
  from f1 have a1t: "agree_on ''tavily'' m m1" and a1s: "agree_on ''serpapi'' m m1" by simp_all
  have ok2': "pool_ok m1 ''tavily''" using a1t ok2 by (rule pool_ok_agree)
  from search_with_spec [OF ok2', of "now_for w ''tavily''" "tavily_body w q"] obtain r2 m2 where
    s2: "search_with_tavily w q m1 = Inr (r2, m2)"
    and r2: "r2 = handed (key_for w ''tavily'' m1) (tavily_body w q)"
    and f2: "\<forall>p. p \<noteq> ''tavily'' \<longrightarrow> agree_on p m1 m2"
    and c2: "\<forall>k e. key_for w ''tavily'' m1 = Inr (Some k) \<and> k \<noteq> [] \<and> tavily_body w q k = Raises e \<longrightarrow>
               cooldown_of m2 ''tavily'' k = ?cd e"
    unfolding search_with_tavily_def key_for_def by blast
  from f2 have a2e: "agree_on ''exa'' m1 m2" and a2s: "agree_on ''serpapi'' m1 m2" by simp_all
  have as: "agree_on ''serpapi'' m m2" using a1s a2s by (rule agree_on_trans)
  have ok3': "pool_ok m2 ''serpapi''" using as ok3 by (rule pool_ok_agree)
  from search_with_spec [OF ok3', of "now_for w ''serpapi''" "serpapi_body w q"] obtain r3 m3 where
    s3: "search_with_serpapi w q m2 = Inr (r3, m3)"
    and r3: "r3 = handed (key_for w ''serpapi'' m2) (serpapi_body w q)"
    and f3: "\<forall>p. p \<noteq> ''serpapi'' \<longrightarrow> agree_on p m2 m3"
    and c3: "\<forall>k e. key_for w ''serpapi'' m2 = Inr (Some k) \<and> k \<noteq> [] \<and> serpapi_body w q k = Raises e \<longrightarrow>
               cooldown_of m3 ''serpapi'' k = ?cd e"
    unfolding search_with_serpapi_def key_for_def by blast
  from f3 have a3e: "agree_on ''exa'' m2 m3" and a3t: "agree_on ''tavily'' m2 m3" by simp_all
  have kt: "key_for w ''tavily'' m1 = key_for w ''tavily'' m"
    using a1t by (simp add: key_for_agree)
  have ks: "key_for w ''serpapi'' m2 = key_for w ''serpapi'' m"
    using as by (simp add: key_for_agree)
  have e13: "agree_on ''exa'' m1 m3" using a2e a3e by (rule agree_on_trans)
  have run: "execute_comprehensive_search w q pn m =
           (Consolidated q pn (report_time w) (websailor_result w)
              (attach ''serpapi'' (handed (key_for w ''serpapi'' m) (serpapi_body w q))
                 (attach ''tavily'' (handed (key_for w ''tavily'' m) (tavily_body w q))
                    (attach ''exa'' (handed (key_for w ''exa'' m) (exa_body w q)) Map.empty))), m3)"
    using s1 s2 s3 r1 r2 r3 kt ks
    by (simp add: execute_comprehensive_search_def search_with_multiple_apis_def)
  have cd: "cooldown_of m3 p k = ?cd e"
    if "p \<in> set providers" "key_for w p m = Inr (Some k)" "k \<noteq> []" "body_of w q p k = Raises e" for p k e
  proof -
    from that(1) consider "p = ''exa''" | "p = ''tavily''" | "p = ''serpapi''"
      by (auto simp: providers_def)
    then show ?thesis
    proof cases
      case 1
      with that c1 have "cooldown_of m1 ''exa'' k = ?cd e" by (simp add: body_of_def)
      with e13 1 show ?thesis by (simp add: cooldown_of_agree)
    next
      case 2
      with that c2 kt have "cooldown_of m2 ''tavily'' k = ?cd e" by (simp add: body_of_def)
      with a3t 2 show ?thesis by (simp add: cooldown_of_agree)
    next
      case 3
      with that c3 ks show ?thesis by (simp add: body_of_def)
    qed
  qed
  from run cd show ?thesis by blast
qed

lemma attached_iff:
  "attach ''serpapi'' r3 (attach ''tavily'' r2 (attach ''exa'' r1 Map.empty)) p = Some d \<longleftrightarrow>
     results d \<noteq> [] \<and>
     (p = ''exa'' \<and> r1 = Some d \<or> p = ''tavily'' \<and> r2 = Some d \<or> p = ''serpapi'' \<and> r3 = Some d)"
  by (auto simp: attach_def split: option.splits)

lemma handed_Some_iff:
  "handed key body = Some d \<longleftrightarrow> (\<exists>k. key = Inr (Some k) \<and> k \<noteq> [] \<and> body k = Returns (Some d))"
  by (auto simp: handed_def split: sum.splits option.splits outcome.splits)

lemmas trio_eval = trio_def trio_world_def init_manager_def is_api_available_def
      update_usage_def get_or_def seconds_def demo_boot_def frozen_clock_def datetime_min_def Let_def
      report_error_def value_of_def manager_of_def get_next_api_def key_for_def
      error_count_of_def last_used_of_def cooldown_of_def py_min_def body_of_def
      exa_body_def tavily_body_def serpapi_body_def truncated_def

lemma wf_trio:
  "wf_service trio ''exa'' [''exa-key-1'']" "wf_service trio ''tavily'' [''tvly-key-1'']"
  "wf_service trio ''serpapi'' [''serp-key-1'']"
  by (simp_all add: wf_service_def trio_eval)

lemma pool_ok_trio: "pool_ok trio ''exa''" "pool_ok trio ''tavily''" "pool_ok trio ''serpapi''"
  using wf_trio by (simp_all add: pool_ok_def wf_service_def)

lemma trio_keys:
  "key_for trio_world ''exa'' trio = Inr (Some ''exa-key-1'')"
  "key_for trio_world ''tavily'' trio = Inr (Some ''tvly-key-1'')"
  "key_for trio_world ''serpapi'' trio = Inr (Some ''serp-key-1'')"
  by (simp_all add: trio_eval)

lemma trio_bodies:
  "body_of trio_world ''q'' ''exa'' ''exa-key-1'' =
     Returns (Some \<lparr>results = [''first hit''], total_results = 1, api_used = ''exa-key-1...'', answer = None\<rparr>)"
  "body_of trio_world ''q'' ''tavily'' ''tvly-key-1'' = Raises ''429: rate limit exceeded''"
  "body_of trio_world ''q'' ''serpapi'' ''serp-key-1'' =
     Returns (Some \<lparr>results = [], total_results = 0, api_used = ''serp-key-1...'', answer = None\<rparr>)"
  by (simp_all add: trio_eval)

lemma rate_text: "sublist ''rate'' ''429: rate limit exceeded''"
  by (simp add: sublist_Cons_right)

text \<open>
  The hypothesis of the statements on the manager is what \<^verbatim>\<open>__init__\<close> establishes for
  every service, and a selection keeps it.
\<close>

lemma init_manager_pool_ok: "pool_ok (init_manager boot configs) p"
  by (cases "configs p")
     (auto simp: pool_ok_def wf_service_def init_manager_def list_all_iff
        error_count_of_def last_used_of_def cooldown_of_def)

lemma get_next_api_keeps_pool_ok:
  assumes "pool_ok m p" "pool_ok m q"
  shows "\<exists>r m'. get_next_api clock p m = Inr (r, m') \<and> pool_ok m' q"
proof (cases "api_configs m p = None \<or> api_configs m p = Some []")
  case True
  then have "get_next_api clock p m = Inr (None, m)" by (rule get_next_api_unconfigured)
  with assms(2) show ?thesis by simp
next
  case False
  with assms(1) obtain ks where wf: "wf_service m p ks"
    by (auto simp: pool_ok_def split: option.splits)
  from get_next_api_selected [OF wf, of clock] obtain k now j m' where
    r: "get_next_api clock p m = Inr (Some k, m')" and j: "j < length ks"
    and s: "selected m p k now j m'" by blast
  show ?thesis
  proof (cases "q = p")
    case True
    from s wf j have "wf_service m' p ks" by (rule selected_wf)
    then have "pool_ok m' p" by (simp add: pool_ok_def wf_service_def)
    with r True show ?thesis by simp
  next
    case False
    with s have "agree_on q m m'" by (rule selected_agree)
    then have "pool_ok m' q" using assms(2) by (rule pool_ok_agree)
    with r show ?thesis by simp
  qed
qed

section \<open>Claims on the orchestrator\<close>

subsection \<open>C7: the partial-failure contract\<close>

text \<open>
  C7: let the manager be well formed for the three services, and let the calls of one
  configured provider b, whatever key of its pool it is given (the keys are not empty
  strings), raise an exception whose text contains \<open>rate\<close>. Then \<^verbatim>\<open>execute_comprehensive_search\<close> returns the consolidated
  result with \<^verbatim>\<open>'success': True\<close> (no exception reaches the caller, and the
  \<^verbatim>\<open>'success': False\<close> branch is not taken); \<^verbatim>\<open>api_search_results\<close> has no key for b; the
  key that was handed out for b has the cooldown period 300 in the manager the call
  leaves; and every other provider whose call returned a dictionary with results has that
  dictionary under its key.
\<close>

theorem partial_failure:
  assumes ok1: "pool_ok m ''exa''" and ok2: "pool_ok m ''tavily''" and ok3: "pool_ok m ''serpapi''"
    and b: "b \<in> set providers" and wf: "wf_service m b ks" and keys: "\<forall>k\<in>set ks. k \<noteq> []"
    and fails: "\<forall>k\<in>set ks. \<exists>e. body_of w q b k = Raises e \<and> sublist ''rate'' e"
  shows "\<exists>rep m' k. execute_comprehensive_search w q pn m = (rep, m') \<and> success rep \<and>
           api_search_results rep b = None \<and>
           key_for w b m = Inr (Some k) \<and> k \<in> set ks \<and> cooldown_of m' b k = Some 300 \<and>
           (\<forall>a d. a \<in> set providers \<and> a \<noteq> b \<and> results d \<noteq> [] \<and>
                  (\<exists>k'. key_for w a m = Inr (Some k') \<and> k' \<noteq> [] \<and> body_of w q a k' = Returns (Some d))
                  \<longrightarrow> api_search_results rep a = Some d)"
proof -
  let ?api = "attach ''serpapi'' (handed (key_for w ''serpapi'' m) (serpapi_body w q))
                 (attach ''tavily'' (handed (key_for w ''tavily'' m) (tavily_body w q))
                    (attach ''exa'' (handed (key_for w ''exa'' m) (exa_body w q)) Map.empty))"
  let ?rep = "Consolidated q pn (report_time w) (websailor_result w) ?api"
  from fan_out [OF ok1 ok2 ok3, of w q pn] obtain m3 where
    run: "execute_comprehensive_search w q pn m = (?rep, m3)"
    and cd: "\<forall>p k e. p \<in> set providers \<and> key_for w p m = Inr (Some k) \<and> k \<noteq> [] \<and> body_of w q p k = Raises e \<longrightarrow>
            cooldown_of m3 p k = Some (if classify e = ''rate_limit'' then 300 else 60)"
    by blast
  have api: "api_search_results ?rep = ?api" by (simp add: api_search_results_def)
  have iff: "?api p = Some d \<longleftrightarrow>
          p \<in> set providers \<and> results d \<noteq> [] \<and>
          (\<exists>k. key_for w p m = Inr (Some k) \<and> k \<noteq> [] \<and> body_of w q p k = Returns (Some d))" for p d
    unfolding attached_iff handed_Some_iff
    by (auto simp: providers_def body_of_def)
  from get_next_api_selected [OF wf, of "now_for w b"] obtain k where
    key: "key_for w b m = Inr (Some k)" and kin: "k \<in> set ks"
    by (auto simp: key_for_def value_of_def)
  from kin keys have kne: "k \<noteq> []" by simp
  from kin fails obtain e where e: "body_of w q b k = Raises e" "sublist ''rate'' e" by blast
  from e(2) have "classify e = ''rate_limit''" by (rule classify_rate)
  with cd b key kne e(1) have c300: "cooldown_of m3 b k = Some 300" by auto
  have none: "?api b = None"
  proof (cases "?api b")
    case None
    then show ?thesis .
  next
    case (Some d)
    with iff [of b d] key e(1) show ?thesis by auto
  qed
  have others: "\<forall>a d. a \<in> set providers \<and> a \<noteq> b \<and> results d \<noteq> [] \<and>
                  (\<exists>k'. key_for w a m = Inr (Some k') \<and> k' \<noteq> [] \<and> body_of w q a k' = Returns (Some d))
                  \<longrightarrow> api_search_results ?rep a = Some d"
    using iff api by auto
  have "success ?rep" by (simp add: success_def)
  with run none api key kin c300 others show ?thesis
    by (intro exI [of _ ?rep] exI [of _ m3] exI [of _ k]) simp
qed

text \<open>
  Witness for C7: Tavily raises \<open>429: rate limit exceeded\<close>, Exa returns one hit.
\<close>

theorem partial_failure_witness:
  "pool_ok trio ''exa'' \<and> pool_ok trio ''tavily'' \<and> pool_ok trio ''serpapi'' \<and>
   wf_service trio ''tavily'' [''tvly-key-1''] \<and>
   body_of trio_world ''q'' ''tavily'' ''tvly-key-1'' = Raises ''429: rate limit exceeded'' \<and>
   (\<exists>rep m'. execute_comprehensive_search trio_world ''q'' ''product'' trio = (rep, m') \<and>
      success rep \<and> api_search_results rep ''tavily'' = None \<and>
      cooldown_of m' ''tavily'' ''tvly-key-1'' = Some 300 \<and>
      api_search_results rep ''exa'' =
        Some \<lparr>results = [''first hit''], total_results = 1, api_used = ''exa-key-1...'', answer = None\<rparr>)"
proof -
  let ?d = "\<lparr>results = [''first hit''], total_results = 1, api_used = ''exa-key-1...'', answer = None :: string option\<rparr>"
  have b: "''tavily'' \<in> set providers" by (simp add: providers_def)
  have keys: "\<forall>k\<in>set [''tvly-key-1'']. k \<noteq> []" by simp
  have fails: "\<forall>k\<in>set [''tvly-key-1'']. \<exists>e. body_of trio_world ''q'' ''tavily'' k = Raises e \<and> sublist ''rate'' e"
    using trio_bodies(2) rate_text by simp
  from partial_failure [OF pool_ok_trio b wf_trio(2) keys fails, of "''product''"]
  obtain rep m' k where
    run: "execute_comprehensive_search trio_world ''q'' ''product'' trio = (rep, m')"
    and s: "success rep" and n: "api_search_results rep ''tavily'' = None"
    and k: "k \<in> set [''tvly-key-1'']" and cd: "cooldown_of m' ''tavily'' k = Some 300"
    and others: "\<forall>a d. a \<in> set providers \<and> a \<noteq> ''tavily'' \<and> results d \<noteq> [] \<and>
                  (\<exists>k'. key_for trio_world a trio = Inr (Some k') \<and> k' \<noteq> [] \<and>
                         body_of trio_world ''q'' a k' = Returns (Some d))
                  \<longrightarrow> api_search_results rep a = Some d"
    by blast
  from k cd have cd': "cooldown_of m' ''tavily'' ''tvly-key-1'' = Some 300" by simp
  have "''exa'' \<in> set providers \<and> ''exa'' \<noteq> ''tavily'' \<and> results ?d \<noteq> [] \<and>
          (\<exists>k'. key_for trio_world ''exa'' trio = Inr (Some k') \<and> k' \<noteq> [] \<and>
                 body_of trio_world ''q'' ''exa'' k' = Returns (Some ?d))"
    using trio_keys(1) trio_bodies(1) by (simp add: providers_def)
  with others have "api_search_results rep ''exa'' = Some ?d" by blast
  with run s n cd' pool_ok_trio wf_trio(2) trio_bodies(2) show ?thesis by simp
qed

subsection \<open>C10: an empty success looks like a failure\<close>

text \<open>
  C10: for a manager that is well formed for the three services, the consolidated result
  holds a dictionary d under the key of a provider exactly when the provider is one of
  exa, tavily and serpapi, its call (with the key handed out for it) returned d, and the
  list of results of d is not empty. A call that returns an empty list therefore leaves no
  key, as a call that raises or a provider without a key does.
\<close>

theorem empty_success_omitted:
  assumes ok1: "pool_ok m ''exa''" and ok2: "pool_ok m ''tavily''" and ok3: "pool_ok m ''serpapi''"
  shows "\<exists>rep m'. execute_comprehensive_search w q pn m = (rep, m') \<and> success rep \<and>
           (\<forall>p d. api_search_results rep p = Some d \<longleftrightarrow>
              p \<in> set providers \<and> results d \<noteq> [] \<and>
              (\<exists>k. key_for w p m = Inr (Some k) \<and> k \<noteq> [] \<and> body_of w q p k = Returns (Some d)))"
proof -
  let ?api = "attach ''serpapi'' (handed (key_for w ''serpapi'' m) (serpapi_body w q))
                 (attach ''tavily'' (handed (key_for w ''tavily'' m) (tavily_body w q))
                    (attach ''exa'' (handed (key_for w ''exa'' m) (exa_body w q)) Map.empty))"
  let ?rep = "Consolidated q pn (report_time w) (websailor_result w) ?api"
  from fan_out [OF ok1 ok2 ok3, of w q pn] obtain m3 where
    run: "execute_comprehensive_search w q pn m = (?rep, m3)" by blast
  have api: "api_search_results ?rep = ?api" by (simp add: api_search_results_def)
  have "?api p = Some d \<longleftrightarrow>
          p \<in> set providers \<and> results d \<noteq> [] \<and>
          (\<exists>k. key_for w p m = Inr (Some k) \<and> k \<noteq> [] \<and> body_of w q p k = Returns (Some d))" for p d
    unfolding attached_iff handed_Some_iff
    by (auto simp: providers_def body_of_def)
  with api have "\<forall>p d. api_search_results ?rep p = Some d \<longleftrightarrow>
              p \<in> set providers \<and> results d \<noteq> [] \<and>
              (\<exists>k. key_for w p m = Inr (Some k) \<and> k \<noteq> [] \<and> body_of w q p k = Returns (Some d))"
    by simp
  moreover have "success ?rep" by (simp add: success_def)
  ultimately show ?thesis using run by blast
qed

text \<open>
  Witness for C10: SerpAPI returns an empty list and Tavily raises; neither has a key,
  Exa has one.
\<close>

theorem empty_success_omitted_witness:
  "pool_ok trio ''exa'' \<and> pool_ok trio ''tavily'' \<and> pool_ok trio ''serpapi'' \<and>
   body_of trio_world ''q'' ''serpapi'' ''serp-key-1'' =
     Returns (Some \<lparr>results = [], total_results = 0, api_used = ''serp-key-1...'', answer = None\<rparr>) \<and>
   body_of trio_world ''q'' ''tavily'' ''tvly-key-1'' = Raises ''429: rate limit exceeded'' \<and>
   (\<exists>rep m'. execute_comprehensive_search trio_world ''q'' ''product'' trio = (rep, m') \<and>
      success rep \<and> api_search_results rep ''serpapi'' = None \<and>
      api_search_results rep ''tavily'' = None \<and>
      api_search_results rep ''exa'' =
        Some \<lparr>results = [''first hit''], total_results = 1, api_used = ''exa-key-1...'', answer = None\<rparr>)"
proof -
  let ?d = "\<lparr>results = [''first hit''], total_results = 1, api_used = ''exa-key-1...'', answer = None :: string option\<rparr>"
  from empty_success_omitted [OF pool_ok_trio, of trio_world "''q''" "''product''"]
  obtain rep m' where
    run: "execute_comprehensive_search trio_world ''q'' ''product'' trio = (rep, m')"
    and s: "success rep"
    and iff: "\<forall>p d. api_search_results rep p = Some d \<longleftrightarrow>
              p \<in> set providers \<and> results d \<noteq> [] \<and>
              (\<exists>k. key_for trio_world p trio = Inr (Some k) \<and> k \<noteq> [] \<and>
                   body_of trio_world ''q'' p k = Returns (Some d))"
    by blast
  have e: "api_search_results rep ''exa'' = Some ?d"
    using iff [rule_format, of "''exa''" ?d] trio_keys(1) trio_bodies(1) by (simp add: providers_def)
  have sp: "api_search_results rep ''serpapi'' = None"
  proof (cases "api_search_results rep ''serpapi''")
    case None
    then show ?thesis .
  next
    case (Some d)
    with iff [rule_format, of "''serpapi''" d] trio_keys(3) trio_bodies(3) show ?thesis by auto
  qed
  have tv: "api_search_results rep ''tavily'' = None"
  proof (cases "api_search_results rep ''tavily''")
    case None
    then show ?thesis .
  next
    case (Some d)
    with iff [rule_format, of "''tavily''" d] trio_keys(2) trio_bodies(2) show ?thesis by auto
  qed
  from run s e sp tv pool_ok_trio trio_bodies(2,3) show ?thesis by simp
qed

section \<open>Lemmas on the first collection loop\<close>

lemma content_text_entry_of [simp]: "content_text (entry_of now result) = result_text result"
  by (simp add: content_text_def entry_of_def result_text_def)

lemma entry_bytes_entry_of [simp]: "entry_bytes (entry_of now result) = result_bytes result"
  by (simp add: entry_bytes_def result_bytes_def)

lemma acceptable_bytes: "acceptable result \<longleftrightarrow> result_bytes result > 100"
  by (simp add: acceptable_def result_bytes_def split: option.splits)

lemma extract_and_add_content_eq:
  "extract_and_add_content now result s =
     (if acceptable result
      then s\<lparr>content_buffer := content_buffer s @ [entry_of now result],
             extracted_content_size := extracted_content_size s + int (result_bytes result)\<rparr>
      else s)"
proof -
  have e: "\<lparr> url = get_or result ''url'' [], title = get_or result ''title'' [],
             content = get_or result ''content'' [], snippet = get_or result ''snippet'' [],
             extracted_at = now \<rparr> = entry_of now result"
    by (simp add: entry_of_def)
  show ?thesis
    unfolding extract_and_add_content_def Let_def e
    by (cases "utf8_size (result_text result)")
       (simp_all add: acceptable_def result_bytes_def)
qed

lemma accepted_bytes_snoc: "accepted_bytes (buffer @ [e]) = accepted_bytes buffer + int (entry_bytes e)"
  by (simp add: accepted_bytes_def)

lemma accounted_extract: "accounted s \<Longrightarrow> accounted (extract_and_add_content now result s)"
  by (simp add: extract_and_add_content_eq accounted_def accepted_bytes_snoc acceptable_bytes)

lemma target_extract [simp]:
  "target_content_size (extract_and_add_content now result s) = target_content_size s"
  by (simp add: extract_and_add_content_eq)


lemma target_add_results [simp]:
  "target_content_size (add_results clock i batch s) = target_content_size s"
  by (induction batch arbitrary: i s) (simp_all add: Let_def)



lemma utf8_size_ascii: "\<forall>c\<in>set s. c < 128 \<Longrightarrow> utf8_size s = Some (length s)"
proof -
  assume a: "\<forall>c\<in>set s. c < 128"
  then have "\<not> list_ex surrogate s" by (auto simp: list_ex_iff surrogate_def)
  moreover from a have "sum_list (map utf8_width s) = length s"
    by (induction s) (simp_all add: utf8_width_def)
  ultimately show ?thesis by (simp add: utf8_size_def)
qed




lemma just_reached_extract:
  "extracted_content_size s < target_content_size s \<Longrightarrow> just_reached (extract_and_add_content now result s)"
  by (simp add: extract_and_add_content_eq just_reached_def)

lemma just_reached_add_results:
  "extracted_content_size s < target_content_size s \<Longrightarrow> just_reached (add_results clock i batch s)"
proof (induction batch arbitrary: i s)
  case Nil
  then show ?case by (simp add: just_reached_def)
next
  case (Cons result rest)
  let ?s' = "extract_and_add_content (clock i) result s"
  show ?case
  proof (cases "extracted_content_size ?s' \<ge> target_content_size ?s'")
    case True
    moreover have "just_reached ?s'" using Cons.prems by (rule just_reached_extract)
    ultimately show ?thesis by (simp add: Let_def)
  next
    case False
    then have "extracted_content_size ?s' < target_content_size ?s'" by simp
    then have "just_reached (add_results clock (Suc i) rest ?s')" by (rule Cons.IH)
    with False show ?thesis by (simp add: Let_def)
  qed
qed

lemma search_from_cases:
  obtains (stop) "\<not> extracted_content_size s < target_content_size s"
      "search_text_content_from env page asked s = (asked, s)"
  | (raises) e where "extracted_content_size s < target_content_size s"
      "search_comprehensive env page = Raises e"
      "search_text_content_from env page asked s = (asked @ [page], s)"
  | (empty) "extracted_content_size s < target_content_size s"
      "search_comprehensive env page = Returns []"
      "search_text_content_from env page asked s = (asked @ [page], s)"
  | (ceiling) batch where "extracted_content_size s < target_content_size s"
      "search_comprehensive env page = Returns batch" "batch \<noteq> []" "page + 1 > 50"
      "search_text_content_from env page asked s =
         (asked @ [page], add_results (extraction_time env page) 0 batch s)"
  | (continue) batch where "extracted_content_size s < target_content_size s"
      "search_comprehensive env page = Returns batch" "batch \<noteq> []" "\<not> page + 1 > 50"
      "search_text_content_from env page asked s =
         search_text_content_from env (page + 1) (asked @ [page])
           (add_results (extraction_time env page) 0 batch s)"
proof (cases "extracted_content_size s < target_content_size s")
  case False
  then show ?thesis by (intro stop) (simp_all add: search_text_content_from.simps [of env page asked s])
next
  case True
  show ?thesis
  proof (cases "search_comprehensive env page")
    case (Raises e)
    with True show ?thesis
      by (intro raises [of e]) (simp_all add: search_text_content_from.simps [of env page asked s])
  next
    case (Returns batch)
    show ?thesis
    proof (cases "batch = []")
      case b: True
      with True Returns show ?thesis
        by (intro empty) (simp_all add: search_text_content_from.simps [of env page asked s])
    next
      case b: False
      show ?thesis
      proof (cases "page + 1 > 50")
        case c: True
        with True Returns b show ?thesis
          by (intro ceiling [of batch])
             (simp_all add: search_text_content_from.simps [of env page asked s] Let_def)
      next
        case c: False
        with True Returns b show ?thesis
          by (intro continue [of batch])
             (simp_all add: search_text_content_from.simps [of env page asked s] Let_def)
      qed
    qed
  qed
qed

lemma just_reached_search_from:
  "just_reached s \<Longrightarrow> just_reached (snd (search_text_content_from env page asked s))"
proof (induction env page asked s rule: search_text_content_from.induct)
  case (1 env page asked s)
  show ?case
  proof (cases rule: search_from_cases [of s env page asked])
    case stop
    with "1.prems" show ?thesis by simp
  next
    case (raises e)
    with "1.prems" show ?thesis by simp
  next
    case empty
    with "1.prems" show ?thesis by simp
  next
    case (ceiling batch)
    then show ?thesis by (simp add: just_reached_add_results)
  next
    case (continue batch)
    let ?s' = "add_results (extraction_time env page) 0 batch s"
    have "just_reached ?s'" using continue(1) by (rule just_reached_add_results)
    with continue have "just_reached (snd (search_text_content_from env (page + 1) (asked @ [page]) ?s'))"
      by (intro "1.IH") auto
    with continue show ?thesis by simp
  qed
qed

lemma all_300_size:
  "all_300 s \<Longrightarrow> extracted_content_size s = 300 * int (length (content_buffer s))"
proof -
  have "list_all (\<lambda>e. entry_bytes e = 300) buffer \<Longrightarrow> sum_list (map entry_bytes buffer) = 300 * length buffer"
    for buffer :: "content_entry list"
    by (induction buffer) simp_all
  then show "all_300 s \<Longrightarrow> extracted_content_size s = 300 * int (length (content_buffer s))"
    by (simp add: all_300_def accounted_def accepted_bytes_def)
qed

lemma all_300_extract:
  "all_300 s \<Longrightarrow> (acceptable result \<longrightarrow> result_bytes result = 300) \<Longrightarrow>
   all_300 (extract_and_add_content now result s)"
  using accounted_extract [of s now result]
  by (auto simp: all_300_def extract_and_add_content_eq)

lemma all_300_add_results:
  "all_300 s \<Longrightarrow> \<forall>r\<in>set batch. acceptable r \<longrightarrow> result_bytes r = 300 \<Longrightarrow>
   all_300 (add_results clock i batch s)"
  by (induction batch arbitrary: i s) (simp_all add: Let_def all_300_extract)

lemma length_extract:
  "length (content_buffer s) \<le> length (content_buffer (extract_and_add_content now result s))"
  by (simp add: extract_and_add_content_eq)

lemma length_add_results:
  "length (content_buffer s) \<le> length (content_buffer (add_results clock i batch s))"
proof (induction batch arbitrary: i s)
  case Nil
  show ?case by simp
next
  case (Cons result rest)
  have "length (content_buffer s) \<le> length (content_buffer (extract_and_add_content (clock i) result s))"
    by (rule length_extract)
  also have "\<dots> \<le> length (content_buffer (add_results clock (Suc i) rest (extract_and_add_content (clock i) result s)))"
    by (rule Cons.IH)
  finally show ?case using length_extract [of s "clock i" result] by (simp add: Let_def)
qed

lemma grows_add_results:
  "extracted_content_size s < target_content_size s \<Longrightarrow> \<exists>r\<in>set batch. acceptable r \<Longrightarrow>
   length (content_buffer s) < length (content_buffer (add_results clock i batch s))"
proof (induction batch arbitrary: i s)
  case Nil
  then show ?case by simp
next
  case (Cons result rest)
  let ?s' = "extract_and_add_content (clock i) result s"
  show ?case
  proof (cases "acceptable result")
    case True
    then have "length (content_buffer s) < length (content_buffer ?s')"
      by (simp add: extract_and_add_content_eq)
    moreover have "length (content_buffer ?s') \<le> length (content_buffer (add_results clock (Suc i) rest ?s'))"
      by (rule length_add_results)
    ultimately show ?thesis by (simp add: Let_def)
  next
    case False
    then have same: "?s' = s" by (simp add: extract_and_add_content_eq)
    from False Cons.prems(2) have "\<exists>r\<in>set rest. acceptable r" by auto
    with Cons.prems(1) have "length (content_buffer s) < length (content_buffer (add_results clock (Suc i) rest s))"
      by (rule Cons.IH)
    with same Cons.prems(1) show ?thesis by (simp add: Let_def)
  qed
qed

lemma scenario_from:
  assumes "uniform_pages env" "target_content_size s = 1000" "all_300 s" "just_reached s"
    "page \<le> Suc (length (content_buffer s))" "\<forall>p\<in>set asked. p \<le> 4"
  shows "(\<forall>p\<in>set (fst (search_text_content_from env page asked s)). p \<le> 4) \<and>
         all_300 (snd (search_text_content_from env page asked s)) \<and>
         just_reached (snd (search_text_content_from env page asked s)) \<and>
         target_content_size (snd (search_text_content_from env page asked s)) = 1000"
  using assms
proof (induction env page asked s rule: search_text_content_from.induct)
  case (1 env page asked s)
  have small: "page \<le> 4" if "extracted_content_size s < target_content_size s"
  proof -
    from that "1.prems"(2) all_300_size [OF "1.prems"(3)]
    have "300 * int (length (content_buffer s)) < 1000" by simp
    then have "length (content_buffer s) \<le> 3" by simp
    with "1.prems"(5) show ?thesis by simp
  qed
  show ?case
  proof (cases rule: search_from_cases [of s env page asked])
    case stop
    with "1.prems" show ?thesis by simp
  next
    case (raises e)
    with "1.prems" small show ?thesis by simp
  next
    case empty
    with "1.prems" small show ?thesis by simp
  next
    case (ceiling batch)
    with small have "page \<le> 4" by simp
    with ceiling(4) show ?thesis by simp
  next
    case (continue batch)
    let ?s' = "add_results (extraction_time env page) 0 batch s"
    from "1.prems"(1) continue(2,3) have u: "\<forall>r\<in>set batch. acceptable r \<longrightarrow> result_bytes r = 300"
      and ex: "\<exists>r\<in>set batch. acceptable r"
      by (auto simp: uniform_pages_def)
    have a: "all_300 ?s'" using "1.prems"(3) u by (rule all_300_add_results)
    have j: "just_reached ?s'" using continue(1) by (rule just_reached_add_results)
    have t: "target_content_size ?s' = 1000" using "1.prems"(2) by simp
    have "length (content_buffer s) < length (content_buffer ?s')"
      using continue(1) ex by (rule grows_add_results)
    with "1.prems"(5) have pg: "page + 1 \<le> Suc (length (content_buffer ?s'))" by simp
    have ask: "\<forall>p\<in>set (asked @ [page]). p \<le> 4" using "1.prems"(6) small continue(1) by simp
    have "(\<forall>p\<in>set (fst (search_text_content_from env (page + 1) (asked @ [page]) ?s')). p \<le> 4) \<and>
         all_300 (snd (search_text_content_from env (page + 1) (asked @ [page]) ?s')) \<and>
         just_reached (snd (search_text_content_from env (page + 1) (asked @ [page]) ?s')) \<and>
         target_content_size (snd (search_text_content_from env (page + 1) (asked @ [page]) ?s')) = 1000"
      using continue "1.prems"(1) t a j pg ask by (intro "1.IH") auto
    with continue(5) show ?thesis by simp
  qed
qed

lemma scenario_bounds:
  assumes "all_300 s" "just_reached s" "target_content_size s = 1000"
  shows "length (content_buffer s) \<le> 4 \<and> extracted_content_size s \<le> 1200 \<and>
         (extracted_content_size s \<ge> 1000 \<longrightarrow>
            length (content_buffer s) = 4 \<and> extracted_content_size s = 1200)"
proof (cases "extracted_content_size s \<ge> 1000")
  case False
  with all_300_size [OF assms(1)] show ?thesis by auto
next
  case True
  with assms(2,3) have ne: "content_buffer s \<noteq> []"
    and lt: "extracted_content_size s - int (entry_bytes (last (content_buffer s))) < 1000"
    by (simp_all add: just_reached_def)
  from ne have "last (content_buffer s) \<in> set (content_buffer s)" by simp
  with assms(1) have "entry_bytes (last (content_buffer s)) = 300"
    by (auto simp: all_300_def list_all_iff)
  with lt have "extracted_content_size s < 1300" by simp
  with True all_300_size [OF assms(1)] show ?thesis by auto
qed

section \<open>Lemmas on the second collection loop\<close>

lemma complete_uniform:
  assumes "uniform_fetch b env" "files s fp = Some doc"
  shows "total_content_size (complete env fp u s) = total_content_size s + int b \<and>
         target_size (complete env fp u s) = target_size s \<and>
         extracted_content (complete env fp u s) = extracted_content s \<and>
         (\<exists>doc'. files (complete env fp u s) fp = Some doc' \<and>
                 length (text_content doc') = Suc (length (text_content doc)))"
proof -
  from assms(1) obtain t d combined where "fetched env u = Some (t, d, combined)"
    "utf8_size combined = Some b" "length combined > 100"
    unfolding uniform_fetch_def by blast
  with assms(2) show ?thesis
    by (simp add: complete_def parse_html_content_def save_content_chunk_def)
qed

lemma fold_complete_uniform:
  assumes "uniform_fetch b env" "files s fp = Some doc"
  shows "total_content_size (fold (complete env fp) tasks s) = total_content_size s + int b * int (length tasks) \<and>
         target_size (fold (complete env fp) tasks s) = target_size s \<and>
         extracted_content (fold (complete env fp) tasks s) = extracted_content s \<and>
         (\<exists>doc'. files (fold (complete env fp) tasks s) fp = Some doc' \<and>
                 length (text_content doc') = length (text_content doc) + length tasks)"
  using assms(2)
proof (induction tasks arbitrary: s doc)
  case Nil
  then show ?case by simp
next
  case (Cons u tasks)
  from complete_uniform [OF assms(1) Cons.prems, of u] obtain doc1 where
    t: "total_content_size (complete env fp u s) = total_content_size s + int b"
    and g: "target_size (complete env fp u s) = target_size s"
    and x: "extracted_content (complete env fp u s) = extracted_content s"
    and f: "files (complete env fp u s) fp = Some doc1"
    and l: "length (text_content doc1) = Suc (length (text_content doc))"
    by blast
  from Cons.IH [OF f] t g x l show ?case by (auto simp: algebra_simps)
qed

lemma massive_loop_batch:
  assumes "total_content_size s < target_size s" "xs \<noteq> []" "length tasks + length xs = 10"
  shows "massive_loop env fp (xs @ rest) tasks s =
         massive_loop env fp rest [] (gather env fp (tasks @ xs) s)"
  using assms
proof (induction xs arbitrary: tasks)
  case Nil
  then show ?case by simp
next
  case (Cons u xs)
  show ?case
  proof (cases "xs = []")
    case True
    with Cons.prems show ?thesis by (simp add: Let_def)
  next
    case False
    with Cons.prems have "massive_loop env fp (xs @ rest) (tasks @ [u]) s =
         massive_loop env fp rest [] (gather env fp ((tasks @ [u]) @ xs) s)"
      by (intro Cons.IH) simp_all
    moreover from False Cons.prems(3) have "\<not> 9 \<le> length tasks" by (cases xs) simp_all
    ultimately show ?thesis using Cons.prems by (simp add: Let_def)
  qed
qed

lemma massive_loop_done:
  "total_content_size s \<ge> target_size s \<Longrightarrow> massive_loop env fp urls [] s = s"
  by (cases urls) simp_all

lemma generate_search_urls_split:
  "generate_search_urls query =
     map (\<lambda>page. Google query (page * 10)) [0..<10] @
     (map (\<lambda>page. Bing query (page * 10 + 1)) [0..<5] @ [DuckDuckGo query] @
      map (\<lambda>site. Google_site site query) marketing_sites)"
  by (simp add: generate_search_urls_def)

lemma massive_uniform:
  assumes "uniform_fetch b env" "total_content_size s = 0" "0 < target_size s"
    "target_size s \<le> 10 * int b" "files s fp = Some doc" "text_content doc = []"
  shows "total_content_size (massive_text_search env query fp s) = 10 * int b \<and>
         target_size (massive_text_search env query fp s) = target_size s \<and>
         extracted_content (massive_text_search env query fp s) = extracted_content s \<and>
         (\<exists>doc'. files (massive_text_search env query fp s) fp = Some doc' \<and>
                 length (text_content doc') = 10)"
proof -
  let ?first = "map (\<lambda>page. Google query (page * 10)) [0..<10]"
  let ?rest = "map (\<lambda>page. Bing query (page * 10 + 1)) [0..<5] @ [DuckDuckGo query] @
      map (\<lambda>site. Google_site site query) marketing_sites"
  let ?s' = "gather env fp ([] @ ?first) s"
  have lt: "total_content_size s < target_size s" using assms(2,3) by simp
  have "massive_loop env fp (?first @ ?rest) [] s = massive_loop env fp ?rest [] ?s'"
    using lt by (rule massive_loop_batch) simp_all
  then have run: "massive_text_search env query fp s = massive_loop env fp ?rest [] ?s'"
    by (simp only: massive_text_search_def generate_search_urls_split)
  have g: "?s' = fold (complete env fp) ?first s" using lt by (simp add: gather_def launch_def)
  from fold_complete_uniform [OF assms(1,5), of ?first] assms(2,6) obtain doc' where
    t: "total_content_size (fold (complete env fp) ?first s) = 10 * int b"
    and tg: "target_size (fold (complete env fp) ?first s) = target_size s"
    and ex: "extracted_content (fold (complete env fp) ?first s) = extracted_content s"
    and f: "files (fold (complete env fp) ?first s) fp = Some doc'" "length (text_content doc') = 10"
    by auto
  from t tg g assms(4) have "massive_loop env fp ?rest [] ?s' = ?s'"
    by (intro massive_loop_done) simp
  with run g t tg ex f show ?thesis by simp
qed

lemma uniform_fetch_burst: "uniform_fetch 300 burst"
proof -
  have "utf8_size (replicate 300 97) = Some (length (replicate 300 (97::nat)))"
    by (rule utf8_size_ascii) simp
  then show ?thesis by (simp add: uniform_fetch_def burst_def)
qed

lemma primed_simps:
  "target_size primed = 1000" "total_content_size primed = 0"
  "\<exists>doc. files primed ''RES_BUSCA_p.json'' = Some doc \<and> text_content doc = []"
  by (simp_all add: primed_def initialize_result_file_def new_websailor2_def)

lemma result_300_bytes: "utf8_size (result_text result_300) = Some 300"
proof -
  have "result_text result_300 = replicate 298 97 @ [32, 32]"
    by (simp add: result_text_def result_300_def get_or_def)
  moreover have "utf8_size (replicate 298 97 @ [32, 32]) = Some (length (replicate 298 (97::nat) @ [32, 32]))"
    by (rule utf8_size_ascii) auto
  ultimately show ?thesis by simp
qed

lemma uniform_pages_steady: "uniform_pages steady"
  by (simp add: uniform_pages_def steady_def acceptable_def result_bytes_def result_300_bytes)

lemma steady_run:
  "fst (search_text_content steady fresh_1000) = [1, 2, 3, 4]"
  "extracted_content_size (snd (search_text_content steady fresh_1000)) = 1200"
proof -
  have l: "acceptable result_300" by (simp add: acceptable_def result_300_bytes)
  have b: "result_bytes result_300 = 300" by (simp add: result_bytes_def result_300_bytes)
  show "fst (search_text_content steady fresh_1000) = [1, 2, 3, 4]"
    by (simp add: search_text_content_def Let_def search_text_content_from.simps
        extract_and_add_content_eq l b steady_def fresh_1000_def)
  show "extracted_content_size (snd (search_text_content steady fresh_1000)) = 1200"
    by (simp add: search_text_content_def Let_def search_text_content_from.simps
        extract_and_add_content_eq l b steady_def fresh_1000_def)
qed

lemma initialize_simps [simp]:
  "total_content_size (initialize_result_file env fp q pn s) = total_content_size s"
  "target_size (initialize_result_file env fp q pn s) = target_size s"
  "extracted_content (initialize_result_file env fp q pn s) = extracted_content s"
  "saved_count (initialize_result_file env fp q pn s) fp = 0"
  by (simp_all add: initialize_result_file_def saved_count_def)

lemma initialize_file:
  "\<exists>doc. files (initialize_result_file env fp q pn s) fp = Some doc \<and> text_content doc = []"
  by (simp add: initialize_result_file_def)

lemma save_social_images_simps [simp]:
  "total_content_size (save_social_images fp name images s) = total_content_size s"
  "target_size (save_social_images fp name images s) = target_size s"
  "extracted_content (save_social_images fp name images s) = extracted_content s"
  "saved_count (save_social_images fp name images s) fp' = saved_count s fp'"
  by (simp_all add: save_social_images_def saved_count_def split: option.splits)

lemma social_simps [simp]:
  "total_content_size (social_media_image_search env fp s) = total_content_size s"
  "target_size (social_media_image_search env fp s) = target_size s"
  "extracted_content (social_media_image_search env fp s) = extracted_content s"
  "saved_count (social_media_image_search env fp s) fp' = saved_count s fp'"
  by (simp_all add: social_media_image_search_def split: outcome.splits)

lemma finalize_simps [simp]:
  "total_content_size (finalize_result_file env fp s) = total_content_size s"
  "target_size (finalize_result_file env fp s) = target_size s"
  "extracted_content (finalize_result_file env fp s) = extracted_content s"
  "saved_count (finalize_result_file env fp s) fp' = saved_count s fp'"
  by (simp_all add: finalize_result_file_def saved_count_def split: option.splits)

lemma execute2_unfold:
  "execute_massive_search2 env q pn s0 =
     (\<lparr> succeeded2 = True, file_path2 = ''RES_BUSCA_'' @ path_of env pn @ ''.json'',
         content_size2 = total_content_size
           (massive_text_search env q (''RES_BUSCA_'' @ path_of env pn @ ''.json'')
              (initialize_result_file env (''RES_BUSCA_'' @ path_of env pn @ ''.json'') q pn s0)),
         timestamp2 = call_time env \<rparr>,
      finalize_result_file env (''RES_BUSCA_'' @ path_of env pn @ ''.json'')
        (social_media_image_search env (''RES_BUSCA_'' @ path_of env pn @ ''.json'')
           (massive_text_search env q (''RES_BUSCA_'' @ path_of env pn @ ''.json'')
              (initialize_result_file env (''RES_BUSCA_'' @ path_of env pn @ ''.json'') q pn s0))))"
  by (simp add: execute_massive_search2_def Let_def)

lemma execute2_uniform:
  assumes "uniform_fetch b env" "total_content_size s0 = 0" "0 < target_size s0"
    "target_size s0 \<le> 10 * int b"
  shows "content_size2 (fst (execute_massive_search2 env q pn s0)) = 10 * int b \<and>
         total_content_size (snd (execute_massive_search2 env q pn s0)) = 10 * int b \<and>
         target_size (snd (execute_massive_search2 env q pn s0)) = target_size s0 \<and>
         extracted_content (snd (execute_massive_search2 env q pn s0)) = extracted_content s0 \<and>
         saved_count (snd (execute_massive_search2 env q pn s0)) (''RES_BUSCA_'' @ path_of env pn @ ''.json'') = 10"
proof -
  let ?fp = "''RES_BUSCA_'' @ path_of env pn @ ''.json''"
  let ?s1 = "initialize_result_file env ?fp q pn s0"
  from initialize_file [of env ?fp q pn s0] obtain doc where
    d: "files ?s1 ?fp = Some doc" "text_content doc = []" by blast
  from massive_uniform [OF assms(1) _ _ _ d, of q] assms(2,3,4)
  have "total_content_size (massive_text_search env q ?fp ?s1) = 10 * int b"
    "target_size (massive_text_search env q ?fp ?s1) = target_size s0"
    "extracted_content (massive_text_search env q ?fp ?s1) = extracted_content s0"
    "saved_count (massive_text_search env q ?fp ?s1) ?fp = 10"
    by (auto simp: saved_count_def)
  then show ?thesis by (simp add: execute2_unfold)
qed

lemma execute2_saturated:
  assumes "total_content_size s0 \<ge> target_size s0"
  shows "content_size2 (fst (execute_massive_search2 env q pn s0)) = total_content_size s0 \<and>
         total_content_size (snd (execute_massive_search2 env q pn s0)) = total_content_size s0 \<and>
         saved_count (snd (execute_massive_search2 env q pn s0)) (''RES_BUSCA_'' @ path_of env pn @ ''.json'') = 0"
proof -
  let ?fp = "''RES_BUSCA_'' @ path_of env pn @ ''.json''"
  let ?s1 = "initialize_result_file env ?fp q pn s0"
  have "massive_text_search env q ?fp ?s1 = ?s1"
    using assms by (simp add: massive_text_search_def massive_loop_done)
  then show ?thesis by (simp add: execute2_unfold)
qed

lemma uniform_fetch_flood: "uniform_fetch 60000 flood"
proof -
  have "utf8_size (replicate 60000 97) = Some (length (replicate 60000 (97::nat)))"
    by (rule utf8_size_ascii) simp
  then show ?thesis by (simp add: uniform_fetch_def flood_def)
qed











lemma saved_of_frame [simp]:
  "saved_of (save_social_images fp name images s) fp' = saved_of s fp'"
  "saved_of (social_media_image_search env fp s) fp' = saved_of s fp'"
  "saved_of (finalize_result_file env fp s) fp' = saved_of s fp'"
  "saved_of (initialize_result_file env fp q pn s) fp = []"
  by (simp_all add: saved_of_def save_social_images_def social_media_image_search_def
      finalize_result_file_def initialize_result_file_def split: option.splits outcome.splits)

lemma files_frame [simp]:
  "files (save_social_images fp name images s) fp' = None \<longleftrightarrow> files s fp' = None"
  "files (social_media_image_search env fp s) fp' = None \<longleftrightarrow> files s fp' = None"
  "files (finalize_result_file env fp s) fp' = None \<longleftrightarrow> files s fp' = None"
  by (simp_all add: save_social_images_def social_media_image_search_def
      finalize_result_file_def split: option.splits outcome.splits)












section \<open>Claims on the collection loops\<close>

subsection \<open>C9: the accounting invariant\<close>




subsection \<open>C8: stopping at the budget\<close>

text \<open>
  C8 says that, with a budget of 1000 bytes and 300 bytes per accepted entry, the
  collection loop stops after the 4th accepted entry, and in general as soon as the
  accumulator reaches the budget. The loop of the second class, the one the instance of
  \<^verbatim>\<open>get_websailor\<close> runs, does not. Counterexample to C8: with the budget 1000 and every
  URL contributing 300 bytes, \<^verbatim>\<open>_massive_text_search\<close> launches the first ten fetches
  together, all ten save their content, and the accumulator ends at 3000 with 10 saved
  entries.
\<close>

theorem budget_stop_counterexample:
  "target_size primed = 1000 \<and> total_content_size primed = 0 \<and>
   saved_count primed ''RES_BUSCA_p.json'' = 0 \<and>
   total_content_size (massive_text_search burst [113] ''RES_BUSCA_p.json'' primed) = 3000 \<and>
   saved_count (massive_text_search burst [113] ''RES_BUSCA_p.json'' primed) ''RES_BUSCA_p.json'' = 10"
proof -
  from primed_simps(3) obtain doc where d: "files primed ''RES_BUSCA_p.json'' = Some doc" "text_content doc = []"
    by blast
  from massive_uniform [OF uniform_fetch_burst primed_simps(2) _ _ d, of "[113]"] d primed_simps(1,2)
  show ?thesis by (auto simp: saved_count_def)
qed

text \<open>
  C8 as amended. The loop of the first class (\<^verbatim>\<open>_search_text_content\<close>) stops as soon as
  the accumulator reaches the budget: started below the budget, it ends with an
  accumulator that was below the budget before its last accepted entry, and started at or
  above the budget it asks for no page. With the budget 1000, an empty buffer, exactly 300
  bytes per accepted result and an acceptable result in every batch that is not empty, it
  asks for no page beyond the 4th, ends with at most 4 entries and 1200 bytes, and with
  exactly 4 entries and 1200 bytes when the budget is reached. The loop of the second
  class (\<^verbatim>\<open>_massive_text_search\<close>) tests the budget only when it launches a fetch and
  launches ten fetches together: started at or above the budget it fetches nothing, but in
  the scenario of 300 bytes per page and the budget 1000 the first batch of ten completes,
  and it ends with 3000 bytes and 10 saved entries.
\<close>

theorem budget_stop:
  assumes "uniform_pages env" "target_content_size s = 1000" "extracted_content_size s = 0"
    "content_buffer s = []"
    and "uniform_fetch 300 env2" "target_size s2 = 1000" "total_content_size s2 = 0"
    "files s2 fp = Some doc" "text_content doc = []"
  shows "(extracted_content_size t < target_content_size t \<longrightarrow>
            just_reached (snd (search_text_content env0 t))) \<and>
         (extracted_content_size t \<ge> target_content_size t \<longrightarrow>
            search_text_content env0 t = ([], t)) \<and>
         (\<forall>p\<in>set (fst (search_text_content env s)). p \<le> 4) \<and>
         length (content_buffer (snd (search_text_content env s))) \<le> 4 \<and>
         extracted_content_size (snd (search_text_content env s)) \<le> 1200 \<and>
         (extracted_content_size (snd (search_text_content env s)) \<ge> 1000 \<longrightarrow>
            length (content_buffer (snd (search_text_content env s))) = 4 \<and>
            extracted_content_size (snd (search_text_content env s)) = 1200) \<and>
         (total_content_size t2 \<ge> target_size t2 \<longrightarrow> massive_text_search env3 query fp3 t2 = t2) \<and>
         total_content_size (massive_text_search env2 query fp s2) = 3000 \<and>
         saved_count (massive_text_search env2 query fp s2) fp = 10"
proof -
  have g1: "extracted_content_size t < target_content_size t \<longrightarrow>
            just_reached (snd (search_text_content env0 t))"
  proof
    assume "extracted_content_size t < target_content_size t"
    then have "just_reached t" by (simp add: just_reached_def)
    then show "just_reached (snd (search_text_content env0 t))"
      unfolding search_text_content_def by (rule just_reached_search_from)
  qed
  have g2: "extracted_content_size t \<ge> target_content_size t \<longrightarrow> search_text_content env0 t = ([], t)"
    by (simp add: search_text_content_def search_text_content_from.simps [of env0 1 "[]" t])
  have a: "all_300 s" using assms(3,4) by (simp add: all_300_def accounted_def accepted_bytes_def)
  have j: "just_reached s" using assms(2,3) by (simp add: just_reached_def)
  from scenario_from [OF assms(1,2) a j, of 1 "[]"] assms(4)
  have pages: "\<forall>p\<in>set (fst (search_text_content env s)). p \<le> 4"
    and a': "all_300 (snd (search_text_content env s))"
    and j': "just_reached (snd (search_text_content env s))"
    and t': "target_content_size (snd (search_text_content env s)) = 1000"
    by (simp_all add: search_text_content_def)
  note b = scenario_bounds [OF a' j' t']
  have g3: "total_content_size t2 \<ge> target_size t2 \<longrightarrow> massive_text_search env3 query fp3 t2 = t2"
    by (simp add: massive_text_search_def massive_loop_done)
  from massive_uniform [OF assms(5,7) _ _ assms(8,9), of query] assms(6)
  have m: "total_content_size (massive_text_search env2 query fp s2) = 3000"
    "saved_count (massive_text_search env2 query fp s2) fp = 10"
    by (auto simp: saved_count_def)
  from g1 g2 pages b g3 m show ?thesis by blast
qed

text \<open>
  Witness for C8 as amended: the first loop asks for the pages 1 to 4 and ends with 4
  entries and 1200 bytes; the second ends with 3000 bytes and 10 entries.
\<close>

theorem budget_stop_witness:
  "uniform_pages steady \<and> target_content_size fresh_1000 = 1000 \<and>
   extracted_content_size fresh_1000 = 0 \<and> content_buffer fresh_1000 = [] \<and>
   uniform_fetch 300 burst \<and> target_size primed = 1000 \<and> total_content_size primed = 0 \<and>
   fst (search_text_content steady fresh_1000) = [1, 2, 3, 4] \<and>
   extracted_content_size (snd (search_text_content steady fresh_1000)) = 1200 \<and>
   length (content_buffer (snd (search_text_content steady fresh_1000))) = 4 \<and>
   total_content_size (massive_text_search burst [113] ''RES_BUSCA_p.json'' primed) = 3000 \<and>
   saved_count (massive_text_search burst [113] ''RES_BUSCA_p.json'' primed) ''RES_BUSCA_p.json'' = 10"
proof -
  have f: "target_content_size fresh_1000 = 1000" "extracted_content_size fresh_1000 = 0"
    "content_buffer fresh_1000 = []"
    by (simp_all add: fresh_1000_def)
  from primed_simps(3) obtain doc where d: "files primed ''RES_BUSCA_p.json'' = Some doc" "text_content doc = []"
    by blast
  note all = budget_stop [OF uniform_pages_steady f uniform_fetch_burst primed_simps(1,2) d,
      of fresh_1000 steady primed burst "[113]" "''RES_BUSCA_p.json''"]
  from all have four: "extracted_content_size (snd (search_text_content steady fresh_1000)) \<ge> 1000 \<longrightarrow>
            length (content_buffer (snd (search_text_content steady fresh_1000))) = 4 \<and>
            extracted_content_size (snd (search_text_content steady fresh_1000)) = 1200"
    by (elim conjE)
  from all have m: "total_content_size (massive_text_search burst [113] ''RES_BUSCA_p.json'' primed) = 3000"
    by (elim conjE)
  from all have n: "saved_count (massive_text_search burst [113] ''RES_BUSCA_p.json'' primed) ''RES_BUSCA_p.json'' = 10"
    by (elim conjE)
  from four steady_run(2) have "length (content_buffer (snd (search_text_content steady fresh_1000))) = 4"
    by simp
  with uniform_pages_steady f uniform_fetch_burst primed_simps(1,2) steady_run m n show ?thesis
    by simp
qed

subsection \<open>C3: the collection session of the second class\<close>

text \<open>
  C3 says that every call of \<^verbatim>\<open>execute_massive_search\<close> on the instance of
  \<^verbatim>\<open>get_websailor\<close> starts with a zero byte accumulator. The first class resets its
  accumulator and buffer at the start of the call; the second class, whose instance
  \<^verbatim>\<open>get_websailor\<close> returns, sets \<^verbatim>\<open>total_content_size\<close> in \<^verbatim>\<open>__init__\<close> only. The code at
  the failing input of C3: on a fresh instance (accumulator 0, budget 512000) the first
  call saves ten pages of 60000 bytes and reports 600000; the second call finds the
  accumulator at 600000, fetches nothing at all (its result file holds no content), and
  still reports success with \<^verbatim>\<open>content_size\<close> 600000. The list
  \<^verbatim>\<open>extracted_content\<close> stays empty throughout: the class never appends to it.
\<close>

theorem second_search_inherits_accumulator:
  "total_content_size (new_websailor2 Map.empty :: unit websailor2) = 0 \<and>
   content_size2 (fst first_call) = 600000 \<and>
   saved_count (snd first_call) ''RES_BUSCA_p.json'' = 10 \<and>
   total_content_size (snd first_call) = 600000 \<and>
   extracted_content (snd first_call) = [] \<and>
   succeeded2 (fst second_call) \<and>
   content_size2 (fst second_call) = 600000 \<and>
   saved_count (snd second_call) ''RES_BUSCA_p.json'' = 0"
proof -
  have p: "path_of flood [112] = ''p''"
    by (simp add: flood_def)
  have n: "total_content_size (new_websailor2 Map.empty :: unit websailor2) = 0"
    "target_size (new_websailor2 Map.empty :: unit websailor2) = 512000"
    "extracted_content (new_websailor2 Map.empty :: unit websailor2) = []"
    by (simp_all add: new_websailor2_def)
  from execute2_uniform [OF uniform_fetch_flood n(1), of "[113]" "[112]"] n(2,3)
  have f: "content_size2 (fst first_call) = 600000" "total_content_size (snd first_call) = 600000"
    "target_size (snd first_call) = 512000" "extracted_content (snd first_call) = []"
    "saved_count (snd first_call) ''RES_BUSCA_p.json'' = 10"
    by (simp_all add: first_call_def p)
  from f(2,3) have "total_content_size (snd first_call) \<ge> target_size (snd first_call)" by simp
  from execute2_saturated [OF this, of flood "[113]" "[112]"] f(2)
  have s: "content_size2 (fst second_call) = 600000"
    "saved_count (snd second_call) ''RES_BUSCA_p.json'' = 0"
    by (simp_all add: second_call_def p)
  have "succeeded2 (fst second_call)" by (simp add: second_call_def execute2_unfold)
  with n(1) f s show ?thesis by simp
qed

end
